theory Spec2Isabelle
  imports Complex_Main "HOL-Library.AList"
begin

section \<open>Data model of the feature engine (src/services/cvEngine.ts)\<close>

text \<open>
  Pixel positions, velocities and scores of the engine are integers: features are created
  on integer grid positions and moved by integer offsets, and scores and SAD values are sums
  of absolute differences of bytes. The field names carry a prefix because \<open>x\<close>, \<open>y\<close> and
  \<open>id\<close> cannot be constants of the theory.
\<close>

record FeaturePoint =
  f_x :: int
  f_y :: int
  f_vx :: int
  f_vy :: int
  f_score :: int
  f_id :: nat
  f_age :: nat

record RawBlob =
  b_x :: int
  b_y :: int
  b_w :: int
  b_h :: int
  b_area :: int
  b_pointCount :: nat

text \<open>
  The private fields of class \<open>CVEngine\<close>. \<open>prevGray\<close> is \<open>None\<close> for \<open>null\<close>.
  A \<open>Uint8ClampedArray\<close> is a list of naturals.
\<close>

record CVEngine =
  width :: nat
  height :: nat
  prevGray :: "nat list option"
  activeFeatures :: "FeaturePoint list"
  nextFeatureId :: nat

definition patchSize :: int where
  "patchSize = 7"

definition searchWindow :: int where
  "searchWindow = 15"

definition new_CVEngine :: "nat \<Rightarrow> nat \<Rightarrow> CVEngine" where
  "new_CVEngine w h =
     \<lparr>width = w, height = h, prevGray = None, activeFeatures = [], nextFeatureId = 0\<rparr>"

definition reset :: "CVEngine \<Rightarrow> CVEngine" where
  "reset e = e\<lparr>prevGray := None, activeFeatures := [], nextFeatureId := 0\<rparr>"

subsection \<open>Numbers that may be NaN or Infinity\<close>

text \<open>
  Reading a typed array out of range yields \<open>undefined\<close>, and arithmetic on \<open>undefined\<close>
  yields \<open>NaN\<close>. A value of type \<open>int option\<close> is an integer or, as \<open>None\<close>, \<open>NaN\<close>
  (\<open>undefined\<close> for a read). Every comparison with \<open>NaN\<close> is false.
\<close>

definition gray_at :: "nat list \<Rightarrow> int \<Rightarrow> int option" where
  "gray_at a i = (if 0 \<le> i \<and> nat i < length a then Some (int (a ! nat i)) else None)"

definition js_absdiff :: "int option \<Rightarrow> int option \<Rightarrow> int option" where
  "js_absdiff p q = (case (p, q) of (Some a, Some b) \<Rightarrow> Some \<bar>a - b\<bar> | _ \<Rightarrow> None)"

definition js_add :: "int option \<Rightarrow> int option \<Rightarrow> int option" where
  "js_add p q = (case (p, q) of (Some a, Some b) \<Rightarrow> Some (a + b) | _ \<Rightarrow> None)"

text \<open>The running minimum \<open>bestSAD\<close> starts at \<open>Infinity\<close>.\<close>

datatype 'a bound = Infinity | Fin 'a

definition sad_less :: "int option \<Rightarrow> int bound \<Rightarrow> bool" where
  "sad_less s b = (case s of None \<Rightarrow> False
                   | Some v \<Rightarrow> (case b of Infinity \<Rightarrow> True | Fin m \<Rightarrow> v < m))"

definition bound_less :: "int bound \<Rightarrow> int \<Rightarrow> bool" where
  "bound_less b c = (case b of Infinity \<Rightarrow> False | Fin m \<Rightarrow> m < c)"

subsection \<open>\<open>toGrayscale\<close>\<close>

text \<open>
  The luma \<open>r * 0.299 + g * 0.587 + b * 0.114\<close> is computed in floating point and stored
  with the rounding and clamping of \<open>Uint8ClampedArray\<close>; it is the parameter \<open>luma\<close> of the
  model. The iterations of the loop are independent, so the loop is a \<open>map\<close> over the
  pixel indices. A channel read beyond the end of the buffer is \<open>undefined\<close>, the sum is then
  \<open>NaN\<close>, and \<open>NaN\<close> is stored as 0. The three indices of a pixel increase, so one of them
  is out of range exactly when the last one is.
\<close>

definition toGrayscale :: "(nat \<Rightarrow> nat \<Rightarrow> nat \<Rightarrow> nat) \<Rightarrow> nat \<Rightarrow> nat \<Rightarrow> nat list \<Rightarrow> nat list" where
  "toGrayscale luma w h data =
     map (\<lambda>i. if i * 4 + 2 < length data
              then luma (data ! (i * 4)) (data ! (i * 4 + 1)) (data ! (i * 4 + 2))
              else 0)
         [0..<w * h]"

subsection \<open>\<open>detectNewFeatures\<close>\<close>

text \<open>The literals 200, 5000 and 50 of the source have names here: \<open>maxFeatures\<close>,
  \<open>acceptSAD\<close> and \<open>maxPoints\<close>.\<close>

definition stride :: nat where
  "stride = 15"

definition maxFeatures :: nat where
  "maxFeatures = 200"

definition cornerScore :: "nat list \<Rightarrow> nat \<Rightarrow> nat \<Rightarrow> nat \<Rightarrow> int option" where
  "cornerScore gray w x y =
     (let idx = int y * int w + int x;
          p = gray_at gray idx;
          s0 = Some 0;
          s1 = js_add s0 (js_absdiff p (gray_at gray (idx - 1)));
          s2 = js_add s1 (js_absdiff p (gray_at gray (idx + 1)));
          s3 = js_add s2 (js_absdiff p (gray_at gray (idx - int w)));
          s4 = js_add s3 (js_absdiff p (gray_at gray (idx + int w)))
      in s4)"

definition tracked_near :: "FeaturePoint list \<Rightarrow> nat \<Rightarrow> nat \<Rightarrow> bool" where
  "tracked_near fs x y = list_ex (\<lambda>f. \<bar>f_x f - int x\<bar> < 10 \<and> \<bar>f_y f - int y\<bar> < 10) fs"

definition newFeature :: "nat \<Rightarrow> nat \<Rightarrow> int \<Rightarrow> nat \<Rightarrow> FeaturePoint" where
  "newFeature x y s n =
     \<lparr>f_x = int x, f_y = int y, f_vx = 0, f_vy = 0, f_score = s, f_id = n, f_age = 0\<rparr>"

text \<open>
  The inner loop over \<open>x\<close>. The state is the feature list and the id counter; the flag of
  the result is \<open>True\<close> when the loop left the whole function through \<open>return\<close>.
\<close>

function detectCols ::
  "nat list \<Rightarrow> real \<Rightarrow> nat \<Rightarrow> nat \<Rightarrow> nat \<Rightarrow> FeaturePoint list \<times> nat
     \<Rightarrow> (FeaturePoint list \<times> nat) \<times> bool" where
  "detectCols gray threshold w y x (fs, n) =
     (if int x < int w - int stride then
        if length fs \<ge> maxFeatures then ((fs, n), True)
        else if tracked_near fs x y then detectCols gray threshold w y (x + stride) (fs, n)
        else (case cornerScore gray w x y of
                None \<Rightarrow> detectCols gray threshold w y (x + stride) (fs, n)
              | Some s \<Rightarrow>
                  if real_of_int s > threshold * 2
                  then detectCols gray threshold w y (x + stride)
                         (fs @ [newFeature x y s n], n + 1)
                  else detectCols gray threshold w y (x + stride) (fs, n))
      else ((fs, n), False))"
  by pat_completeness auto
termination
  by (relation "measure (\<lambda>(gray, threshold, w, y, x, st). w - x)") (auto simp: stride_def)

text \<open>The outer loop over \<open>y\<close>.\<close>

function detectRows ::
  "nat list \<Rightarrow> real \<Rightarrow> nat \<Rightarrow> nat \<Rightarrow> nat \<Rightarrow> FeaturePoint list \<times> nat
     \<Rightarrow> FeaturePoint list \<times> nat" where
  "detectRows gray threshold w h y st =
     (if int y < int h - int stride then
        (case detectCols gray threshold w y stride st of
           (st', True) \<Rightarrow> st'
         | (st', False) \<Rightarrow> detectRows gray threshold w h (y + stride) st')
      else st)"
  by pat_completeness auto
termination
  by (relation "measure (\<lambda>(gray, threshold, w, h, y, st). h - y)") (auto simp: stride_def)

definition detectNewFeatures :: "nat list \<Rightarrow> real \<Rightarrow> CVEngine \<Rightarrow> CVEngine" where
  "detectNewFeatures gray threshold e =
     (case detectRows gray threshold (width e) (height e) stride
             (activeFeatures e, nextFeatureId e) of
        (fs, n) \<Rightarrow> e\<lparr>activeFeatures := fs, nextFeatureId := n\<rparr>)"

subsection \<open>\<open>findMatch\<close>\<close>

definition halfP :: int where
  "halfP = patchSize div 2"

definition halfS :: int where
  "halfS = searchWindow div 2"

text \<open>The two inner loops: the SAD of the patch around \<open>(fx, fy)\<close> in \<open>prev\<close> and the
  patch around \<open>(nx, ny)\<close> in \<open>cur\<close> (the source's \<open>curr\<close>).\<close>

definition patchSAD :: "nat \<Rightarrow> nat list \<Rightarrow> nat list \<Rightarrow> int \<Rightarrow> int \<Rightarrow> int \<Rightarrow> int \<Rightarrow> int option" where
  "patchSAD w prev cur fx fy nx ny =
     fold (\<lambda>py sad.
        fold (\<lambda>px sad.
           js_add sad (js_absdiff (gray_at prev ((fy + py) * int w + (fx + px)))
                                  (gray_at cur ((ny + py) * int w + (nx + px)))))
          [- halfP..halfP] sad)
       [- halfP..halfP] (Some 0)"

definition outOfFrame :: "nat \<Rightarrow> nat \<Rightarrow> int \<Rightarrow> int \<Rightarrow> bool" where
  "outOfFrame w h nx ny =
     (nx < halfP \<or> nx \<ge> int w - halfP \<or> ny < halfP \<or> ny \<ge> int h - halfP)"

text \<open>One iteration of the search: the state is \<open>(bestSAD, bestX, bestY)\<close>.\<close>

definition searchStep ::
  "nat \<Rightarrow> nat \<Rightarrow> FeaturePoint \<Rightarrow> nat list \<Rightarrow> nat list \<Rightarrow> int \<Rightarrow> int
     \<Rightarrow> int bound \<times> int \<times> int \<Rightarrow> int bound \<times> int \<times> int" where
  "searchStep w h f prev cur dy dx best =
     (let nx = f_x f + dx; ny = f_y f + dy in
      if outOfFrame w h nx ny then best
      else (case patchSAD w prev cur (f_x f) (f_y f) nx ny of
              None \<Rightarrow> best
            | Some sad \<Rightarrow> if sad_less (Some sad) (fst best) then (Fin sad, nx, ny) else best))"

definition searchLoop ::
  "nat \<Rightarrow> nat \<Rightarrow> FeaturePoint \<Rightarrow> nat list \<Rightarrow> nat list \<Rightarrow> int bound \<times> int \<times> int" where
  "searchLoop w h f prev cur =
     fold (\<lambda>dy best. fold (\<lambda>dx best. searchStep w h f prev cur dy dx best)
                        [- halfS..halfS] best)
       [- halfS..halfS] (Infinity, f_x f, f_y f)"

definition acceptSAD :: int where
  "acceptSAD = 5000"

definition findMatch ::
  "nat \<Rightarrow> nat \<Rightarrow> FeaturePoint \<Rightarrow> nat list \<Rightarrow> nat list \<Rightarrow> (int \<times> int) option" where
  "findMatch w h f prev cur =
     (case searchLoop w h f prev cur of
        (bestSAD, bestX, bestY) \<Rightarrow>
          if bound_less bestSAD acceptSAD then Some (bestX, bestY) else None)"

subsection \<open>The tracking loop of \<open>process\<close>\<close>

definition trackStep ::
  "nat \<Rightarrow> nat \<Rightarrow> nat list \<Rightarrow> nat list \<Rightarrow> FeaturePoint \<Rightarrow> FeaturePoint list
     \<Rightarrow> FeaturePoint list" where
  "trackStep w h prev cur f trackedFeatures =
     (case findMatch w h f prev cur of
        Some (nx, ny) \<Rightarrow>
          trackedFeatures @
            [f\<lparr>f_x := nx, f_y := ny, f_vx := nx - f_x f, f_vy := ny - f_y f,
               f_age := f_age f + 1\<rparr>]
      | None \<Rightarrow> trackedFeatures)"

definition trackFeatures ::
  "nat \<Rightarrow> nat \<Rightarrow> nat list \<Rightarrow> nat list \<Rightarrow> FeaturePoint list \<Rightarrow> FeaturePoint list" where
  "trackFeatures w h prev cur fs = fold (trackStep w h prev cur) fs []"

subsection \<open>\<open>clusterFeatures\<close>\<close>

definition isMoving :: "FeaturePoint \<Rightarrow> bool" where
  "isMoving f = (real_of_int (\<bar>f_vx f\<bar> + \<bar>f_vy f\<bar>) > 0.2)"

definition nearSeed :: "FeaturePoint \<Rightarrow> FeaturePoint \<Rightarrow> bool" where
  "nearSeed f other =
     (let dist = sqrt (real_of_int ((f_x f - f_x other)\<^sup>2 + (f_y f - f_y other)\<^sup>2));
          vDist = sqrt (real_of_int ((f_vx f - f_vx other)\<^sup>2 + (f_vy f - f_vy other)\<^sup>2))
      in dist < 60 \<and> vDist < 2)"

text \<open>The inner loop: the state is \<open>(group, visited, minX, maxX, minY, maxY)\<close>, with \<open>grp\<close> for \<open>group\<close>.\<close>

definition groupStep ::
  "FeaturePoint \<Rightarrow> FeaturePoint
     \<Rightarrow> FeaturePoint list \<times> nat set \<times> int \<times> int \<times> int \<times> int
     \<Rightarrow> FeaturePoint list \<times> nat set \<times> int \<times> int \<times> int \<times> int" where
  "groupStep f other st =
     (case st of (grp, visited, minX, maxX, minY, maxY) \<Rightarrow>
        if f_id other \<in> visited then st
        else if nearSeed f other
        then (grp @ [other], insert (f_id other) visited,
              min minX (f_x other), max maxX (f_x other),
              min minY (f_y other), max maxY (f_y other))
        else st)"

definition makeBlob :: "FeaturePoint list \<Rightarrow> int \<Rightarrow> int \<Rightarrow> int \<Rightarrow> int \<Rightarrow> RawBlob" where
  "makeBlob grp minX maxX minY maxY =
     \<lparr>b_x = minX - 10, b_y = minY - 10,
      b_w = (maxX - minX) + 20, b_h = (maxY - minY) + 20,
      b_area = (maxX - minX) * (maxY - minY),
      b_pointCount = length grp\<rparr>"

text \<open>The outer loop: the state is \<open>(blobs, visited)\<close>.\<close>

definition seedStep ::
  "FeaturePoint list \<Rightarrow> FeaturePoint \<Rightarrow> RawBlob list \<times> nat set \<Rightarrow> RawBlob list \<times> nat set" where
  "seedStep moving f st =
     (case st of (blobs, visited) \<Rightarrow>
        if f_id f \<in> visited then st
        else (case fold (groupStep f) moving
                     ([f], insert (f_id f) visited, f_x f, f_x f, f_y f, f_y f) of
                (grp, visited', minX, maxX, minY, maxY) \<Rightarrow>
                  if length grp \<ge> 3
                  then (blobs @ [makeBlob grp minX maxX minY maxY], visited')
                  else (blobs, visited')))"

definition clusterFeatures :: "FeaturePoint list \<Rightarrow> RawBlob list" where
  "clusterFeatures fs =
     (let moving = filter isMoving fs in fst (fold (seedStep moving) moving ([], {})))"

subsection \<open>\<open>process\<close>\<close>

record ProcessResult =
  blobs :: "RawBlob list"
  features :: "FeaturePoint list"

definition process ::
  "(nat \<Rightarrow> nat \<Rightarrow> nat \<Rightarrow> nat) \<Rightarrow> CVEngine \<Rightarrow> nat list \<Rightarrow> real \<Rightarrow> CVEngine \<times> ProcessResult" where
  "process luma e frameData threshold =
     (let gray = toGrayscale luma (width e) (height e) frameData in
      case prevGray e of
        None \<Rightarrow>
          (let e1 = detectNewFeatures gray threshold (e\<lparr>prevGray := Some gray\<rparr>)
           in (e1, \<lparr>blobs = [], features = activeFeatures e1\<rparr>))
      | Some prev \<Rightarrow>
          (let trackedFeatures = trackFeatures (width e) (height e) prev gray (activeFeatures e);
               e1 = e\<lparr>activeFeatures := trackedFeatures\<rparr>;
               e2 = (if length (activeFeatures e1) < 50
                     then detectNewFeatures gray threshold e1 else e1);
               bs = clusterFeatures (activeFeatures e2);
               e3 = e2\<lparr>prevGray := Some gray\<rparr>
           in (e3, \<lparr>blobs = bs, features = activeFeatures e3\<rparr>)))"

section \<open>The trajectory tracker (src/services/blobTracker.ts, src/types.ts)\<close>

text \<open>
  Blob positions, timestamps and the persistence parameter are arbitrary numbers; they are
  reals here, and \<open>Math.sqrt\<close> is the real square root. A blob without \<open>x\<close> or \<open>y\<close>, and
  \<open>NaN\<close>, are outside the model.
\<close>

record Point =
  p_x :: real
  p_y :: real
  p_timestamp :: real

record Trajectory =
  t_id :: nat
  points :: "Point list"
  active :: bool
  color :: string

text \<open>\<open>update\<close> reads only \<open>x\<close> and \<open>y\<close> of a blob.\<close>

record Blob =
  blob_x :: real
  blob_y :: real

record TrackingParams =
  threshold :: real
  minArea :: real
  maxArea :: real
  persistence :: real
  blur :: real
  showBoxes :: bool
  showCentroids :: bool
  showTrajectories :: bool

text \<open>
  The \<open>Map\<close> of trajectories is an association list in insertion order:
  \<open>AList.update\<close> replaces the value of a key that is present and appends a new key, as
  \<open>Map.set\<close> does, and the list is iterated from its head, as \<open>Map.forEach\<close> does.
\<close>

record BlobTracker =
  trajectories :: "(nat \<times> Trajectory) list"
  nextId :: nat

definition colors :: "string list" where
  "colors = [''#3b82f6'', ''#ef4444'', ''#10b981'', ''#f59e0b'', ''#8b5cf6'',
             ''#ec4899'', ''#06b6d4'', ''#f97316'', ''#a855f7'', ''#14b8a6'']"

definition new_BlobTracker :: BlobTracker where
  "new_BlobTracker = \<lparr>trajectories = [], nextId = 0\<rparr>"

definition tracker_reset :: "BlobTracker \<Rightarrow> BlobTracker" where
  "tracker_reset st = st\<lparr>trajectories := [], nextId := 0\<rparr>"

text \<open>
  Reading \<open>lastPoint.x\<close> of a trajectory without points throws a \<open>TypeError\<close>, since
  \<open>points[-1]\<close> is \<open>undefined\<close>.
\<close>

datatype error = TypeError

definition maxPoints :: nat where
  "maxPoints = 50"

definition distance :: "Blob \<Rightarrow> Point \<Rightarrow> real" where
  "distance blob lastPoint =
     sqrt ((blob_x blob - p_x lastPoint)\<^sup>2 + (blob_y blob - p_y lastPoint)\<^sup>2)"

definition dist_less :: "real \<Rightarrow> real bound \<Rightarrow> bool" where
  "dist_less d b = (case b of Infinity \<Rightarrow> True | Fin m \<Rightarrow> d < m)"

text \<open>
  The inner \<open>forEach\<close> over the trajectories, for one blob. The state is
  \<open>(bestMatch, minDistance)\<close>; \<open>bestMatch\<close> is the map entry of the trajectory object it
  refers to.
\<close>

fun findBest ::
  "Blob \<Rightarrow> TrackingParams \<Rightarrow> nat set \<Rightarrow> (nat \<times> Trajectory) list
     \<Rightarrow> (nat \<times> Trajectory) option \<times> real bound
     \<Rightarrow> error + ((nat \<times> Trajectory) option \<times> real bound)" where
  "findBest blob params matchedIds [] st = Inr st"
| "findBest blob params matchedIds ((k, traj) # rest) (bestMatch, minDistance) =
     (if active traj \<and> t_id traj \<notin> matchedIds then
        (case points traj of
           [] \<Rightarrow> Inl TypeError
         | _ # _ \<Rightarrow>
             (let lastPoint = last (points traj);
                  dist = distance blob lastPoint
              in if dist < persistence params * 50 \<and> dist_less dist minDistance
                 then findBest blob params matchedIds rest (Some (k, traj), Fin dist)
                 else findBest blob params matchedIds rest (bestMatch, minDistance)))
      else findBest blob params matchedIds rest (bestMatch, minDistance))"

definition pushPoint :: "Point \<Rightarrow> Trajectory \<Rightarrow> Trajectory" where
  "pushPoint p traj =
     (let ps = points traj @ [p]
      in traj\<lparr>points := (if length ps > maxPoints then tl ps else ps)\<rparr>)"

definition newTrajectory :: "nat \<Rightarrow> Point \<Rightarrow> Trajectory" where
  "newTrajectory n p =
     \<lparr>t_id = n, points = [p], active = True, color = colors ! (n mod length colors)\<rparr>"

text \<open>The point \<open>{ x: blob.x, y: blob.y, timestamp }\<close> of both branches.\<close>

definition blobPoint :: "Blob \<Rightarrow> real \<Rightarrow> Point" where
  "blobPoint blob timestamp = \<lparr>p_x = blob_x blob, p_y = blob_y blob, p_timestamp = timestamp\<rparr>"

text \<open>The body of the outer \<open>forEach\<close>, for one blob; the state is the tracker and
  \<open>matchedIds\<close>.\<close>

definition blobStep ::
  "real \<Rightarrow> TrackingParams \<Rightarrow> Blob \<Rightarrow> BlobTracker \<times> nat set
     \<Rightarrow> error + (BlobTracker \<times> nat set)" where
  "blobStep timestamp params blob st =
     (case st of (tr, matchedIds) \<Rightarrow>
        (let p = blobPoint blob timestamp in
         case findBest blob params matchedIds (trajectories tr) (None, Infinity) of
           Inl err \<Rightarrow> Inl err
         | Inr (Some (k, traj), minDistance) \<Rightarrow>
             Inr (tr\<lparr>trajectories := AList.map_entry k (pushPoint p) (trajectories tr)\<rparr>,
                  insert (t_id traj) matchedIds)
         | Inr (None, minDistance) \<Rightarrow>
             (let n = nextId tr
              in Inr (tr\<lparr>trajectories := AList.update n (newTrajectory n p) (trajectories tr),
                         nextId := n + 1\<rparr>,
                      insert n matchedIds))))"

fun forEachBlob ::
  "real \<Rightarrow> TrackingParams \<Rightarrow> Blob list \<Rightarrow> BlobTracker \<times> nat set
     \<Rightarrow> error + (BlobTracker \<times> nat set)" where
  "forEachBlob timestamp params [] st = Inr st"
| "forEachBlob timestamp params (blob # rest) st =
     (case blobStep timestamp params blob st of
        Inl err \<Rightarrow> Inl err
      | Inr st' \<Rightarrow> forEachBlob timestamp params rest st')"

definition deactivate :: "nat set \<Rightarrow> (nat \<times> Trajectory) list \<Rightarrow> (nat \<times> Trajectory) list" where
  "deactivate matchedIds trajs =
     map (\<lambda>(k, traj). (k, if t_id traj \<notin> matchedIds then traj\<lparr>active := False\<rparr> else traj))
       trajs"

text \<open>
  \<open>update_matched\<close> is \<open>update\<close> up to its last statement, with the final
  \<open>matchedIds\<close> beside the state; \<open>update\<close> returns the values of the map.
\<close>

definition update_matched ::
  "BlobTracker \<Rightarrow> Blob list \<Rightarrow> real \<Rightarrow> TrackingParams \<Rightarrow> error + (BlobTracker \<times> nat set)" where
  "update_matched tr currentBlobs timestamp params =
     (case forEachBlob timestamp params currentBlobs (tr, {}) of
        Inl err \<Rightarrow> Inl err
      | Inr (tr', matchedIds) \<Rightarrow>
          Inr (tr'\<lparr>trajectories := deactivate matchedIds (trajectories tr')\<rparr>, matchedIds))"

definition update ::
  "BlobTracker \<Rightarrow> Blob list \<Rightarrow> real \<Rightarrow> TrackingParams
     \<Rightarrow> error + (BlobTracker \<times> Trajectory list)" where
  "update tr currentBlobs timestamp params =
     (case update_matched tr currentBlobs timestamp params of
        Inl err \<Rightarrow> Inl err
      | Inr (tr', matchedIds) \<Rightarrow> Inr (tr', map snd (trajectories tr')))"

section \<open>Specification-level definitions\<close>

subsection \<open>The first strict minimum of a scan\<close>

text \<open>
  Both \<open>findMatch\<close> and the matching loop of \<open>update\<close> scan a list of candidates and
  keep a candidate only when its score is strictly below the best so far. \<open>first_min\<close> is
  that scan for a score function \<open>sc\<close> (\<open>None\<close> for a candidate that is skipped), and
  \<open>is_first_min sc cs i v\<close> says declaratively what it finds: candidate \<open>i\<close> has score
  \<open>v\<close>, no candidate has a smaller score, and every candidate before \<open>i\<close> has a larger
  one.
\<close>

definition fm_step :: "('a \<Rightarrow> ('v::linorder) option) \<Rightarrow> 'a \<Rightarrow> ('a \<times> 'v) option \<Rightarrow> ('a \<times> 'v) option" where
  "fm_step sc c acc =
     (case sc c of None \<Rightarrow> acc
      | Some v \<Rightarrow> (case acc of None \<Rightarrow> Some (c, v)
                   | Some (b, m) \<Rightarrow> if v < m then Some (c, v) else acc))"

definition first_min :: "('a \<Rightarrow> ('v::linorder) option) \<Rightarrow> 'a list \<Rightarrow> ('a \<times> 'v) option" where
  "first_min sc cs = fold (fm_step sc) cs None"

definition is_first_min :: "('a \<Rightarrow> ('v::linorder) option) \<Rightarrow> 'a list \<Rightarrow> nat \<Rightarrow> 'v \<Rightarrow> bool" where
  "is_first_min sc cs i v =
     (i < length cs \<and> sc (cs ! i) = Some v \<and>
      (\<forall>j<length cs. \<forall>u. sc (cs ! j) = Some u \<longrightarrow> v \<le> u) \<and>
      (\<forall>j<i. \<forall>u. sc (cs ! j) = Some u \<longrightarrow> v < u))"

subsection \<open>Tracker: eligibility, invariant, call sequences\<close>

text \<open>
  \<open>eligible_dist\<close> is the distance of a blob to the last point of a trajectory that is
  active, not yet matched in this call, and closer than \<open>persistence * 50\<close>; it is \<open>None\<close>
  for every other trajectory. \<open>best_state\<close> maps a result of \<open>first_min\<close> to the pair
  \<open>(bestMatch, minDistance)\<close> of the source.
\<close>

definition eligible_dist :: "Blob \<Rightarrow> TrackingParams \<Rightarrow> nat set \<Rightarrow> nat \<times> Trajectory \<Rightarrow> real option" where
  "eligible_dist blob params matchedIds e =
     (if active (snd e) \<and> t_id (snd e) \<notin> matchedIds \<and>
         distance blob (last (points (snd e))) < persistence params * 50
      then Some (distance blob (last (points (snd e)))) else None)"

definition best_state :: "('a \<times> real) option \<Rightarrow> 'a option \<times> real bound" where
  "best_state acc = (case acc of None \<Rightarrow> (None, Infinity) | Some (e, d) \<Rightarrow> (Some e, Fin d))"

text \<open>
  The invariant of the tracker: keys are distinct, every key is the id of its trajectory and
  below the id counter, and every trajectory has between 1 and 50 points. \<open>step_rel\<close> is
  the invariant of the loop over the blobs of one \<open>update\<close> call that started in \<open>tr0\<close>,
  after the blobs \<open>B\<close>.
\<close>

definition entry_ok :: "nat \<Rightarrow> nat \<times> Trajectory \<Rightarrow> bool" where
  "entry_ok n e = (t_id (snd e) = fst e \<and> fst e < n \<and> points (snd e) \<noteq> [] \<and>
                   length (points (snd e)) \<le> maxPoints)"

definition tracker_inv :: "BlobTracker \<Rightarrow> bool" where
  "tracker_inv tr = (distinct (map fst (trajectories tr)) \<and>
                     list_all (entry_ok (nextId tr)) (trajectories tr))"

definition step_rel :: "real \<Rightarrow> Blob set \<Rightarrow> BlobTracker \<Rightarrow> BlobTracker \<times> nat set \<Rightarrow> bool" where
  "step_rel ts B tr0 st =
     (case st of (tr, M) \<Rightarrow>
        tracker_inv tr \<and> nextId tr0 \<le> nextId tr \<and>
        map fst (trajectories tr) = map fst (trajectories tr0) @ [nextId tr0..<nextId tr] \<and>
        (\<forall>k t. (k, t) \<in> set (trajectories tr0) \<longrightarrow>
           (if k \<in> M
            then active t \<and> (\<exists>b\<in>B. (k, pushPoint (blobPoint b ts) t) \<in> set (trajectories tr))
            else (k, t) \<in> set (trajectories tr))) \<and>
        (\<forall>k. nextId tr0 \<le> k \<and> k < nextId tr \<longrightarrow>
           k \<in> M \<and> (\<exists>b\<in>B. (k, newTrajectory k (blobPoint b ts)) \<in> set (trajectories tr))) \<and>
        M \<subseteq> fst ` set (trajectories tr))"

text \<open>
  A sequence of calls on one tracker, from left to right; an exception ends it.
\<close>

datatype tracker_call = Update "Blob list" real TrackingParams | Reset

fun tracker_run :: "BlobTracker \<Rightarrow> tracker_call list \<Rightarrow> error + BlobTracker" where
  "tracker_run tr [] = Inr tr"
| "tracker_run tr (Update bs ts params # calls) =
     (case update tr bs ts params of
        Inl err \<Rightarrow> Inl err
      | Inr (tr', out) \<Rightarrow> tracker_run tr' calls)"
| "tracker_run tr (Reset # calls) = tracker_run (tracker_reset tr) calls"

text \<open>
  Example inputs: a blob at a position, and the parameters the application starts with
  (\<open>params\<close> of \<open>App\<close>), with the persistence left open.
\<close>

definition mkBlob :: "real \<Rightarrow> real \<Rightarrow> Blob" where
  "mkBlob bx by = \<lparr>blob_x = bx, blob_y = by\<rparr>"

definition appParams :: "real \<Rightarrow> TrackingParams" where
  "appParams pers =
     \<lparr>threshold = 40, minArea = 50, maxArea = 20000, persistence = pers, blur = 3,
      showBoxes = True, showCentroids = True, showTrajectories = True\<rparr>"

subsection \<open>Engine: invariant and call sequences\<close>

text \<open>
  The invariant of the engine: the 7x7 patch around every active feature lies inside the
  frame, feature ids are distinct and below the id counter, there are at most 200 features,
  and the previous frame, when there is one, has \<open>width * height\<close> pixels.
  \<open>fresh_feature n n'\<close> describes a feature that \<open>detectNewFeatures\<close> has just created,
  with an id from \<open>n\<close> up to \<open>n'\<close>.
\<close>

definition feat_ok :: "nat \<Rightarrow> nat \<Rightarrow> nat \<Rightarrow> FeaturePoint \<Rightarrow> bool" where
  "feat_ok w h n f =
     (halfP \<le> f_x f \<and> f_x f < int w - halfP \<and> halfP \<le> f_y f \<and> f_y f < int h - halfP \<and>
      f_id f < n)"

definition feats_inv :: "nat \<Rightarrow> nat \<Rightarrow> nat \<Rightarrow> FeaturePoint list \<Rightarrow> bool" where
  "feats_inv w h n fs =
     (list_all (feat_ok w h n) fs \<and> distinct (map f_id fs) \<and> length fs \<le> maxFeatures)"

definition engine_inv :: "CVEngine \<Rightarrow> bool" where
  "engine_inv e =
     (feats_inv (width e) (height e) (nextFeatureId e) (activeFeatures e) \<and>
      (case prevGray e of None \<Rightarrow> True | Some g \<Rightarrow> length g = width e * height e))"

definition fresh_feature :: "nat \<Rightarrow> nat \<Rightarrow> FeaturePoint \<Rightarrow> bool" where
  "fresh_feature n n' f = (f_age f = 0 \<and> f_vx f = 0 \<and> f_vy f = 0 \<and> n \<le> f_id f \<and> f_id f < n')"

datatype engine_call = Process "nat list" real | ResetEngine

fun engine_run :: "(nat \<Rightarrow> nat \<Rightarrow> nat \<Rightarrow> nat) \<Rightarrow> CVEngine \<Rightarrow> engine_call list \<Rightarrow> CVEngine" where
  "engine_run luma e [] = e"
| "engine_run luma e (Process frameData thr # calls) =
     engine_run luma (fst (process luma e frameData thr)) calls"
| "engine_run luma e (ResetEngine # calls) = engine_run luma (reset e) calls"

subsection \<open>Engine: the search of \<open>findMatch\<close>, declaratively\<close>

text \<open>
  \<open>raster f\<close> lists the candidate positions of the search window in the order in which the
  two loops visit them: \<open>dy\<close> outside, \<open>dx\<close> inside, both from \<open>-7\<close> to \<open>7\<close>.
  \<open>candSAD\<close> is the score of a candidate: none when the candidate is skipped by the bounds
  check, otherwise the SAD the source computes. \<open>search_state\<close> maps a result of
  \<open>first_min\<close> to the variables \<open>(bestSAD, bestX, bestY)\<close>. \<open>sad_spec\<close> is the sum of absolute
  differences of two 7x7 patches, written with plain array reads. \<open>trackOne\<close> is what the
  tracking loop of \<open>process\<close> does with one feature.
\<close>

definition raster :: "FeaturePoint \<Rightarrow> (int \<times> int) list" where
  "raster f =
     concat (map (\<lambda>dy. map (\<lambda>dx. (f_x f + dx, f_y f + dy)) [- halfS..halfS]) [- halfS..halfS])"

definition candSAD :: "nat \<Rightarrow> nat \<Rightarrow> nat list \<Rightarrow> nat list \<Rightarrow> FeaturePoint \<Rightarrow> int \<times> int \<Rightarrow> int option" where
  "candSAD w h prev cur f c =
     (if outOfFrame w h (fst c) (snd c) then None
      else patchSAD w prev cur (f_x f) (f_y f) (fst c) (snd c))"

definition search_state :: "FeaturePoint \<Rightarrow> ((int \<times> int) \<times> int) option \<Rightarrow> int bound \<times> int \<times> int" where
  "search_state f acc =
     (case acc of None \<Rightarrow> (Infinity, f_x f, f_y f) | Some ((nx, ny), s) \<Rightarrow> (Fin s, nx, ny))"

definition sad_spec :: "nat \<Rightarrow> nat list \<Rightarrow> nat list \<Rightarrow> int \<Rightarrow> int \<Rightarrow> int \<Rightarrow> int \<Rightarrow> int" where
  "sad_spec w prev cur fx fy nx ny =
     (\<Sum>py\<leftarrow>[- 3..3]. \<Sum>px\<leftarrow>[- 3..3].
        \<bar>int (prev ! nat ((fy + py) * int w + (fx + px))) -
         int (cur ! nat ((ny + py) * int w + (nx + px)))\<bar>)"

definition trackOne :: "nat \<Rightarrow> nat \<Rightarrow> nat list \<Rightarrow> nat list \<Rightarrow> FeaturePoint \<Rightarrow> FeaturePoint option" where
  "trackOne w h prev cur f =
     map_option (\<lambda>(nx, ny). f\<lparr>f_x := nx, f_y := ny, f_vx := nx - f_x f, f_vy := ny - f_y f,
                               f_age := f_age f + 1\<rparr>)
       (findMatch w h f prev cur)"

subsection \<open>Engine: clustering, in the words of the specification\<close>

text \<open>
  The group of a seed is the seed followed by the moving features, in order, that are not
  visited and are near the seed. Seeds are taken in order, skipping visited features, and
  every member of a group becomes visited. A blob is the padded bounding box of a group of at
  least 3.
\<close>

definition seed_group :: "nat set \<Rightarrow> FeaturePoint list \<Rightarrow> FeaturePoint \<Rightarrow> FeaturePoint list" where
  "seed_group visited moving f =
     f # filter (\<lambda>other. f_id other \<notin> insert (f_id f) visited \<and> nearSeed f other) moving"

fun seed_groups :: "nat set \<Rightarrow> FeaturePoint list \<Rightarrow> FeaturePoint list \<Rightarrow> FeaturePoint list list" where
  "seed_groups visited moving [] = []"
| "seed_groups visited moving (f # rest) =
     (if f_id f \<in> visited then seed_groups visited moving rest
      else seed_group visited moving f #
           seed_groups (visited \<union> f_id ` set (seed_group visited moving f)) moving rest)"

definition blob_of :: "FeaturePoint list \<Rightarrow> RawBlob" where
  "blob_of g =
     \<lparr>b_x = Min (f_x ` set g) - 10, b_y = Min (f_y ` set g) - 10,
      b_w = (Max (f_x ` set g) - Min (f_x ` set g)) + 20,
      b_h = (Max (f_y ` set g) - Min (f_y ` set g)) + 20,
      b_area = (Max (f_x ` set g) - Min (f_x ` set g)) * (Max (f_y ` set g) - Min (f_y ` set g)),
      b_pointCount = length g\<rparr>"

definition cluster_spec :: "FeaturePoint list \<Rightarrow> RawBlob list" where
  "cluster_spec fs =
     map blob_of (filter (\<lambda>g. 3 \<le> length g)
                    (seed_groups {} (filter isMoving fs) (filter isMoving fs)))"

subsection \<open>Example inputs\<close>

text \<open>
  \<open>luma_round\<close> is the luma in exact arithmetic, rounded half up. It agrees with the
  floating-point luma of the source on black and on white pixels, which is all the examples
  use: \<open>luma_round 0 0 0 = 0\<close> and \<open>luma_round 255 255 255 = 255\<close>. \<open>stripes\<close> is a 31x31
  RGBA frame of vertical stripes of period 7: every byte of pixel \<open>(x, y)\<close> is 255 when
  \<open>x mod 7 = 1\<close> and 0 otherwise.
\<close>

definition luma_round :: "nat \<Rightarrow> nat \<Rightarrow> nat \<Rightarrow> nat" where
  "luma_round r g b = (299 * r + 587 * g + 114 * b + 500) div 1000"

definition stripe_px :: "nat \<Rightarrow> nat" where
  "stripe_px i = (if i mod 31 mod 7 = 1 then 255 else 0)"

definition stripes :: "nat list" where
  "stripes = map (\<lambda>j. stripe_px (j div 4)) [0..<3844]"

section \<open>Lemmas about the trajectory tracker\<close>

lemma first_min_snoc: "first_min sc (cs @ [c]) = fm_step sc c (first_min sc cs)"
  by (simp add: first_min_def)

lemma first_min_None: "first_min sc cs = None \<longleftrightarrow> (\<forall>c\<in>set cs. sc c = None)"
proof (induction cs rule: rev_induct)
  case Nil
  show ?case by (simp add: first_min_def)
next
  case (snoc c cs)
  show ?case using snoc.IH
    by (cases "first_min sc cs") (auto simp: first_min_snoc fm_step_def split: option.splits)
qed

lemma first_min_Some:
  "first_min sc cs = Some (c, v) \<Longrightarrow> \<exists>i. is_first_min sc cs i v \<and> cs ! i = c"
proof (induction cs arbitrary: c v rule: rev_induct)
  case Nil
  then show ?case by (simp add: first_min_def)
next
  case (snoc a cs)
  show ?case
  proof (cases "sc a")
    case None
    with snoc.prems have "first_min sc cs = Some (c, v)"
      by (simp add: first_min_snoc fm_step_def)
    from snoc.IH[OF this] obtain i where i: "is_first_min sc cs i v" "cs ! i = c" by blast
    have "is_first_min sc (cs @ [a]) i v"
      using i None unfolding is_first_min_def
      by (auto simp: nth_append less_Suc_eq)
    moreover have "(cs @ [a]) ! i = c" using i by (simp add: is_first_min_def nth_append)
    ultimately show ?thesis by blast
  next
    case (Some u)
    show ?thesis
    proof (cases "first_min sc cs")
      case None
      then have all: "\<forall>c\<in>set cs. sc c = None" by (simp add: first_min_None)
      from snoc.prems None Some have cv: "c = a" "v = u"
        by (simp_all add: first_min_snoc fm_step_def)
      have "is_first_min sc (cs @ [a]) (length cs) v"
        using all Some cv unfolding is_first_min_def
        by (auto simp: nth_append less_Suc_eq)
      then show ?thesis using cv by (intro exI[of _ "length cs"]) simp
    next
      case (Some bm)
      obtain b m where bm: "bm = (b, m)" by (cases bm)
      from snoc.IH[of b m] Some bm obtain i where i: "is_first_min sc cs i m" "cs ! i = b" by blast
      show ?thesis
      proof (cases "u < m")
        case True
        with snoc.prems Some bm \<open>sc a = Some u\<close> have cv: "c = a" "v = u"
          by (simp_all add: first_min_snoc fm_step_def)
        have "is_first_min sc (cs @ [a]) (length cs) v"
          using i True \<open>sc a = Some u\<close> cv unfolding is_first_min_def
          by (fastforce simp: nth_append less_Suc_eq)
        then show ?thesis using cv by (intro exI[of _ "length cs"]) simp
      next
        case False
        with snoc.prems Some bm \<open>sc a = Some u\<close> have cv: "c = b" "v = m"
          by (simp_all add: first_min_snoc fm_step_def)
        have "is_first_min sc (cs @ [a]) i v"
          using i False \<open>sc a = Some u\<close> cv unfolding is_first_min_def
          by (auto simp: nth_append less_Suc_eq)
        moreover have "(cs @ [a]) ! i = c" using i cv by (simp add: is_first_min_def nth_append)
        ultimately show ?thesis by blast
      qed
    qed
  qed
qed

lemma is_first_min_unique:
  "is_first_min sc cs i v \<Longrightarrow> is_first_min sc cs j u \<Longrightarrow> i = j \<and> v = u"
  unfolding is_first_min_def
  by (metis linorder_neqE_nat not_less option.inject)

lemma first_min_iff:
  "first_min sc cs = Some (c, v) \<longleftrightarrow> (\<exists>i. is_first_min sc cs i v \<and> cs ! i = c)"
proof
  assume "first_min sc cs = Some (c, v)"
  then show "\<exists>i. is_first_min sc cs i v \<and> cs ! i = c" by (rule first_min_Some)
next
  assume "\<exists>i. is_first_min sc cs i v \<and> cs ! i = c"
  then obtain i where i: "is_first_min sc cs i v" "cs ! i = c" by blast
  then have "sc (cs ! i) = Some v" "cs ! i \<in> set cs" by (auto simp: is_first_min_def)
  then have "first_min sc cs \<noteq> None" by (auto simp: first_min_None)
  then obtain c' v' where r: "first_min sc cs = Some (c', v')" by (cases "first_min sc cs") auto
  from first_min_Some[OF r] obtain j where j: "is_first_min sc cs j v'" "cs ! j = c'" by blast
  from is_first_min_unique[OF i(1) j(1)] i j r show "first_min sc cs = Some (c, v)" by simp
qed

lemma findBest_fold:
  "list_all (\<lambda>e. points (snd e) \<noteq> []) trajs \<Longrightarrow>
   findBest blob params M trajs (best_state acc) =
     Inr (best_state (fold (fm_step (eligible_dist blob params M)) trajs acc))"
proof (induction trajs arbitrary: acc)
  case Nil
  show ?case by simp
next
  case (Cons e trajs)
  obtain k t where e: "e = (k, t)" by (cases e)
  from Cons.prems e obtain p ps where ps: "points t = p # ps" by (cases "points t") auto
  have rest: "list_all (\<lambda>e. points (snd e) \<noteq> []) trajs" using Cons.prems by simp
  have step: "findBest blob params M (e # trajs) (best_state acc) =
              findBest blob params M trajs (best_state (fm_step (eligible_dist blob params M) e acc))"
  proof (cases acc)
    case None
    then show ?thesis using e ps
      by (simp add: best_state_def fm_step_def eligible_dist_def dist_less_def Let_def)
  next
    case (Some a)
    obtain e' d where a: "a = (e', d)" by (cases a)
    show ?thesis using e ps Some a
      by (simp add: best_state_def fm_step_def eligible_dist_def dist_less_def Let_def)
  qed
  show ?case using Cons.IH[OF rest] step by simp
qed

lemma blobStep_eq:
  assumes "list_all (\<lambda>e. points (snd e) \<noteq> []) (trajectories tr)"
  shows "blobStep ts params blob (tr, M) =
     Inr (case first_min (eligible_dist blob params M) (trajectories tr) of
            Some ((k, traj), d) \<Rightarrow>
              (tr\<lparr>trajectories := AList.map_entry k (pushPoint (blobPoint blob ts)) (trajectories tr)\<rparr>,
               insert (t_id traj) M)
          | None \<Rightarrow>
              (tr\<lparr>trajectories := AList.update (nextId tr) (newTrajectory (nextId tr) (blobPoint blob ts))
                                    (trajectories tr),
                  nextId := nextId tr + 1\<rparr>,
               insert (nextId tr) M))"
proof -
  have "findBest blob params M (trajectories tr) (None, Infinity) =
        Inr (best_state (first_min (eligible_dist blob params M) (trajectories tr)))"
    using findBest_fold[OF assms, of blob params M None]
    by (simp add: best_state_def first_min_def)
  then show ?thesis
    by (simp add: blobStep_def Let_def best_state_def split: option.splits prod.splits)
qed

lemma map_fst_map_entry: "map fst (AList.map_entry k f al) = map fst al"
  by (induction al) auto

lemma set_map_entry:
  "distinct (map fst al) \<Longrightarrow> (k, v) \<in> set al \<Longrightarrow>
   set (AList.map_entry k f al) = insert (k, f v) (set al - {(k, v)})"
proof (induction al)
  case Nil
  then show ?case by simp
next
  case (Cons a al)
  show ?case
  proof (cases "fst a = k")
    case True
    with Cons.prems have "a = (k, v)" by (cases a) (auto simp: image_iff)
    moreover from Cons.prems True have "(k, v) \<notin> set al" by (auto simp: image_iff)
    ultimately show ?thesis by auto
  next
    case False
    with Cons.prems have "(k, v) \<in> set al" "distinct (map fst al)" by auto
    from Cons.IH[OF this(2,1)] False show ?thesis by (cases a) auto
  qed
qed

lemma update_fresh: "k \<notin> fst ` set al \<Longrightarrow> AList.update k v al = al @ [(k, v)]"
  by (induction al) auto

lemma entry_ok_pushPoint: "entry_ok n (k, t) \<Longrightarrow> entry_ok n (k, pushPoint p t)"
  by (auto simp: entry_ok_def pushPoint_def Let_def maxPoints_def)

lemma entry_ok_mono: "entry_ok n e \<Longrightarrow> n \<le> m \<Longrightarrow> entry_ok m e"
  by (auto simp: entry_ok_def)

lemma entry_ok_new: "entry_ok (Suc n) (n, newTrajectory n p)"
  by (simp add: entry_ok_def newTrajectory_def maxPoints_def)

lemma list_all_map_entry:
  "list_all P al \<Longrightarrow> (\<And>v. P (k, v) \<Longrightarrow> P (k, f v)) \<Longrightarrow> list_all P (AList.map_entry k f al)"
  by (induction al) auto

lemma tracker_inv_nonempty:
  "tracker_inv tr \<Longrightarrow> list_all (\<lambda>e. points (snd e) \<noteq> []) (trajectories tr)"
  by (auto simp: tracker_inv_def entry_ok_def list_all_iff)

lemma tracker_inv_entry:
  "tracker_inv tr \<Longrightarrow> (k, t) \<in> set (trajectories tr) \<Longrightarrow> entry_ok (nextId tr) (k, t)"
  by (auto simp: tracker_inv_def list_all_iff)

lemma tracker_inv_unique:
  "tracker_inv tr \<Longrightarrow> (k, t) \<in> set (trajectories tr) \<Longrightarrow> (k, t') \<in> set (trajectories tr) \<Longrightarrow> t = t'"
  by (auto simp: tracker_inv_def dest: eq_key_imp_eq_value)

lemma blobStep_rel:
  assumes rel: "step_rel ts B tr0 (tr, M)"
  shows "\<exists>st'. blobStep ts params blob (tr, M) = Inr st' \<and> step_rel ts (insert blob B) tr0 st'"
proof -
  from rel have inv: "tracker_inv tr" by (simp add: step_rel_def)
  let ?p = "blobPoint blob ts"
  note eq = blobStep_eq[OF tracker_inv_nonempty[OF inv], of ts params blob M]
  from rel have keys: "map fst (trajectories tr) = map fst (trajectories tr0) @ [nextId tr0..<nextId tr]"
    and le: "nextId tr0 \<le> nextId tr" and sub: "M \<subseteq> fst ` set (trajectories tr)"
    and old: "\<And>k t. (k, t) \<in> set (trajectories tr0) \<Longrightarrow>
           (if k \<in> M
            then active t \<and> (\<exists>b\<in>B. (k, pushPoint (blobPoint b ts) t) \<in> set (trajectories tr))
            else (k, t) \<in> set (trajectories tr))"
    and new: "\<And>k. nextId tr0 \<le> k \<Longrightarrow> k < nextId tr \<Longrightarrow>
           k \<in> M \<and> (\<exists>b\<in>B. (k, newTrajectory k (blobPoint b ts)) \<in> set (trajectories tr))"
    by (auto simp: step_rel_def)
  from inv have dist: "distinct (map fst (trajectories tr))" by (simp add: tracker_inv_def)
  show ?thesis
  proof (cases "first_min (eligible_dist blob params M) (trajectories tr)")
    case None
    let ?n = "nextId tr"
    let ?tr' = "tr\<lparr>trajectories := AList.update ?n (newTrajectory ?n ?p) (trajectories tr),
                  nextId := ?n + 1\<rparr>"
    have fresh: "?n \<notin> fst ` set (trajectories tr)"
      using inv by (auto simp: tracker_inv_def list_all_iff entry_ok_def)
    have upd: "AList.update ?n (newTrajectory ?n ?p) (trajectories tr) =
               trajectories tr @ [(?n, newTrajectory ?n ?p)]"
      by (rule update_fresh[OF fresh])
    have step: "blobStep ts params blob (tr, M) = Inr (?tr', insert ?n M)"
      using eq None by simp
    have inv': "tracker_inv ?tr'"
      using inv fresh unfolding tracker_inv_def upd
      by (auto simp: list_all_iff entry_ok_new intro: entry_ok_mono)
    have "step_rel ts (insert blob B) tr0 (?tr', insert ?n M)"
      unfolding step_rel_def prod.case
    proof (intro conjI allI impI)
      show "tracker_inv ?tr'" by (rule inv')
      show "nextId tr0 \<le> nextId ?tr'" using le by simp
      show "map fst (trajectories ?tr') = map fst (trajectories tr0) @ [nextId tr0..<nextId ?tr']"
        using keys le by (simp add: upd)
      show "insert ?n M \<subseteq> fst ` set (trajectories ?tr')" using sub by (auto simp: upd)
    next
      fix k t assume kt: "(k, t) \<in> set (trajectories tr0)"
      have "k \<in> fst ` set (trajectories tr)"
      proof -
        have "k \<in> set (map fst (trajectories tr0))" using kt by force
        then have "k \<in> set (map fst (trajectories tr))" unfolding keys by simp
        then show ?thesis by simp
      qed
      then have kn: "k \<noteq> ?n" using fresh by blast
      show "if k \<in> insert ?n M
            then active t \<and> (\<exists>b\<in>insert blob B. (k, pushPoint (blobPoint b ts) t) \<in> set (trajectories ?tr'))
            else (k, t) \<in> set (trajectories ?tr')"
        using old[OF kt] kn by (auto simp: upd)
    next
      fix k assume k: "nextId tr0 \<le> k \<and> k < nextId ?tr'"
      show "k \<in> insert ?n M" using k new[of k] by (cases "k = ?n") auto
      show "\<exists>b\<in>insert blob B. (k, newTrajectory k (blobPoint b ts)) \<in> set (trajectories ?tr')"
        using k new[of k] by (cases "k = ?n") (auto simp: upd)
    qed
    with step show ?thesis by blast
  next
    case (Some a)
    obtain k traj d where a: "a = ((k, traj), d)" by (cases a) auto
    let ?tr' = "tr\<lparr>trajectories := AList.map_entry k (pushPoint ?p) (trajectories tr)\<rparr>"
    from Some a have "first_min (eligible_dist blob params M) (trajectories tr) = Some ((k, traj), d)"
      by simp
    from first_min_Some[OF this] obtain i where
      i: "is_first_min (eligible_dist blob params M) (trajectories tr) i d" "trajectories tr ! i = (k, traj)"
      by blast
    from i have mem: "(k, traj) \<in> set (trajectories tr)" by (auto simp: is_first_min_def dest: nth_mem)
    from i have el: "eligible_dist blob params M (k, traj) = Some d" by (simp add: is_first_min_def)
    then have act: "active traj" and nm: "t_id traj \<notin> M"
      by (auto simp: eligible_dist_def split: if_splits)
    from tracker_inv_entry[OF inv mem] have ok: "entry_ok (nextId tr) (k, traj)" .
    then have idk: "t_id traj = k" and klt: "k < nextId tr" by (auto simp: entry_ok_def)
    have step: "blobStep ts params blob (tr, M) = Inr (?tr', insert k M)"
      using eq Some a idk by simp
    have set': "set (trajectories ?tr') = insert (k, pushPoint ?p traj) (set (trajectories tr) - {(k, traj)})"
      using set_map_entry[OF dist mem] by simp
    have inv': "tracker_inv ?tr'"
      using inv unfolding tracker_inv_def
      by (auto simp: map_fst_map_entry intro!: list_all_map_entry entry_ok_pushPoint)
    have "step_rel ts (insert blob B) tr0 (?tr', insert k M)"
      unfolding step_rel_def prod.case
    proof (intro conjI allI impI)
      show "tracker_inv ?tr'" by (rule inv')
      show "nextId tr0 \<le> nextId ?tr'" using le by simp
      show "map fst (trajectories ?tr') = map fst (trajectories tr0) @ [nextId tr0..<nextId ?tr']"
        using keys by (simp add: map_fst_map_entry)
      show "insert k M \<subseteq> fst ` set (trajectories ?tr')"
        using sub mem by (auto simp: dom_map_entry intro: rev_image_eqI)
    next
      fix k0 t0 assume kt: "(k0, t0) \<in> set (trajectories tr0)"
      show "if k0 \<in> insert k M
            then active t0 \<and> (\<exists>b\<in>insert blob B. (k0, pushPoint (blobPoint b ts) t0) \<in> set (trajectories ?tr'))
            else (k0, t0) \<in> set (trajectories ?tr')"
      proof (cases "k0 = k")
        case True
        with old[OF kt] nm idk have "(k, t0) \<in> set (trajectories tr)" by auto
        with mem have "t0 = traj" using tracker_inv_unique[OF inv] by blast
        then show ?thesis using True act set' by auto
      next
        case False
        then show ?thesis using old[OF kt] set' by auto
      qed
    next
      fix k0 assume k: "nextId tr0 \<le> k0 \<and> k0 < nextId ?tr'"
      then have "k0 \<in> M" and ex: "\<exists>b\<in>B. (k0, newTrajectory k0 (blobPoint b ts)) \<in> set (trajectories tr)"
        using new[of k0] by auto
      then show "k0 \<in> insert k M" by simp
      have "k0 \<noteq> k" using \<open>k0 \<in> M\<close> nm idk by auto
      then show "\<exists>b\<in>insert blob B. (k0, newTrajectory k0 (blobPoint b ts)) \<in> set (trajectories ?tr')"
        using ex set' by auto
    qed
    with step show ?thesis by blast
  qed
qed

lemma forEachBlob_rel:
  "step_rel ts B tr0 st \<Longrightarrow>
   \<exists>st'. forEachBlob ts params bs st = Inr st' \<and> step_rel ts (B \<union> set bs) tr0 st'"
proof (induction bs arbitrary: st B)
  case Nil
  then show ?case by simp
next
  case (Cons b bs)
  obtain tr M where st: "st = (tr, M)" by (cases st)
  from blobStep_rel[of ts B tr0 tr M params b] Cons.prems st
  obtain st1 where s1: "blobStep ts params b st = Inr st1" "step_rel ts (insert b B) tr0 st1" by auto
  from Cons.IH[OF s1(2)] obtain st' where
    "forEachBlob ts params bs st1 = Inr st'" "step_rel ts (insert b B \<union> set bs) tr0 st'" by blast
  then show ?case using s1 by auto
qed

lemma step_rel_init: "tracker_inv tr \<Longrightarrow> step_rel ts {} tr (tr, {})"
  by (simp add: step_rel_def)

lemma set_deactivate:
  "set (deactivate M al) =
     (\<lambda>e. (fst e, if t_id (snd e) \<notin> M then (snd e)\<lparr>active := False\<rparr> else snd e)) ` set al"
  by (auto simp: deactivate_def split: prod.splits intro!: rev_image_eqI)

lemma map_fst_deactivate: "map fst (deactivate M al) = map fst al"
  by (simp add: deactivate_def split_def)

lemma tracker_inv_deactivate:
  "tracker_inv tr \<Longrightarrow> tracker_inv (tr\<lparr>trajectories := deactivate M (trajectories tr)\<rparr>)"
  by (auto simp: tracker_inv_def map_fst_deactivate list_all_iff set_deactivate entry_ok_def)

lemma update_matched_spec:
  assumes inv: "tracker_inv tr"
  shows "\<exists>tr' M. update_matched tr bs ts params = Inr (tr', M) \<and> tracker_inv tr' \<and>
     nextId tr \<le> nextId tr' \<and>
     map fst (trajectories tr') = map fst (trajectories tr) @ [nextId tr..<nextId tr'] \<and>
     (\<forall>k t. (k, t) \<in> set (trajectories tr) \<longrightarrow>
        (if k \<in> M
         then active t \<and> (\<exists>b\<in>set bs. (k, pushPoint (blobPoint b ts) t) \<in> set (trajectories tr'))
         else (k, t\<lparr>active := False\<rparr>) \<in> set (trajectories tr'))) \<and>
     (\<forall>k. nextId tr \<le> k \<and> k < nextId tr' \<longrightarrow>
        k \<in> M \<and> (\<exists>b\<in>set bs. (k, newTrajectory k (blobPoint b ts)) \<in> set (trajectories tr'))) \<and>
     M \<subseteq> fst ` set (trajectories tr') \<and>
     (\<forall>k t'. (k, t') \<in> set (trajectories tr') \<and> k \<notin> M \<longrightarrow> \<not> active t')"
proof -
  from forEachBlob_rel[OF step_rel_init[OF inv], of ts params bs]
  obtain st1 where run: "forEachBlob ts params bs (tr, {}) = Inr st1"
    and rel: "step_rel ts (set bs) tr st1" by auto
  obtain tr1 M where st1: "st1 = (tr1, M)" by (cases st1)
  let ?tr' = "tr1\<lparr>trajectories := deactivate M (trajectories tr1)\<rparr>"
  from rel st1 have inv1: "tracker_inv tr1" and le: "nextId tr \<le> nextId tr1"
    and keys: "map fst (trajectories tr1) = map fst (trajectories tr) @ [nextId tr..<nextId tr1]"
    and sub: "M \<subseteq> fst ` set (trajectories tr1)"
    and old: "\<And>k t. (k, t) \<in> set (trajectories tr) \<Longrightarrow>
           (if k \<in> M
            then active t \<and> (\<exists>b\<in>set bs. (k, pushPoint (blobPoint b ts) t) \<in> set (trajectories tr1))
            else (k, t) \<in> set (trajectories tr1))"
    and new: "\<And>k. nextId tr \<le> k \<Longrightarrow> k < nextId tr1 \<Longrightarrow>
           k \<in> M \<and> (\<exists>b\<in>set bs. (k, newTrajectory k (blobPoint b ts)) \<in> set (trajectories tr1))"
    by (auto simp: step_rel_def)
  have idk: "\<And>k t. (k, t) \<in> set (trajectories tr1) \<Longrightarrow> t_id t = k"
    using tracker_inv_entry[OF inv1] by (auto simp: entry_ok_def)
  have keep: "\<And>k t. (k, t) \<in> set (trajectories tr1) \<Longrightarrow> k \<in> M \<Longrightarrow> (k, t) \<in> set (trajectories ?tr')"
    using idk by (force simp: set_deactivate)
  have drop: "\<And>k t. (k, t) \<in> set (trajectories tr1) \<Longrightarrow> k \<notin> M \<Longrightarrow>
                 (k, t\<lparr>active := False\<rparr>) \<in> set (trajectories ?tr')"
    using idk by (force simp: set_deactivate)
  have um: "update_matched tr bs ts params = Inr (?tr', M)"
    using run st1 by (simp add: update_matched_def)
  have c1: "tracker_inv ?tr'" by (rule tracker_inv_deactivate[OF inv1])
  have c2: "map fst (trajectories ?tr') = map fst (trajectories tr) @ [nextId tr..<nextId ?tr']"
    using keys by (simp add: map_fst_deactivate)
  have c3: "\<forall>k t. (k, t) \<in> set (trajectories tr) \<longrightarrow>
        (if k \<in> M
         then active t \<and> (\<exists>b\<in>set bs. (k, pushPoint (blobPoint b ts) t) \<in> set (trajectories ?tr'))
         else (k, t\<lparr>active := False\<rparr>) \<in> set (trajectories ?tr'))"
  proof (intro allI impI)
    fix k t assume kt: "(k, t) \<in> set (trajectories tr)"
    show "if k \<in> M
         then active t \<and> (\<exists>b\<in>set bs. (k, pushPoint (blobPoint b ts) t) \<in> set (trajectories ?tr'))
         else (k, t\<lparr>active := False\<rparr>) \<in> set (trajectories ?tr')"
    proof (cases "k \<in> M")
      case True
      with old[OF kt] obtain b where "active t" "b \<in> set bs"
        "(k, pushPoint (blobPoint b ts) t) \<in> set (trajectories tr1)" by auto
      with keep[OF this(3) True] True show ?thesis by auto
    next
      case False
      with old[OF kt] have "(k, t) \<in> set (trajectories tr1)" by simp
      from drop[OF this False] False show ?thesis by simp
    qed
  qed
  have c4: "\<forall>k. nextId tr \<le> k \<and> k < nextId ?tr' \<longrightarrow>
        k \<in> M \<and> (\<exists>b\<in>set bs. (k, newTrajectory k (blobPoint b ts)) \<in> set (trajectories ?tr'))"
  proof (intro allI impI)
    fix k assume "nextId tr \<le> k \<and> k < nextId ?tr'"
    then have "k \<in> M" and "\<exists>b\<in>set bs. (k, newTrajectory k (blobPoint b ts)) \<in> set (trajectories tr1)"
      using new[of k] by auto
    then show "k \<in> M \<and> (\<exists>b\<in>set bs. (k, newTrajectory k (blobPoint b ts)) \<in> set (trajectories ?tr'))"
      using keep by blast
  qed
  have c5: "M \<subseteq> fst ` set (trajectories ?tr')"
  proof -
    have "fst ` set (trajectories ?tr') = set (map fst (trajectories ?tr'))" by simp
    also have "\<dots> = set (map fst (trajectories tr1))" by (simp add: map_fst_deactivate)
    finally show ?thesis using sub by simp
  qed
  have c6: "\<forall>k t'. (k, t') \<in> set (trajectories ?tr') \<and> k \<notin> M \<longrightarrow> \<not> active t'"
    using idk by (auto simp: set_deactivate)
  from um c1 le c2 c3 c4 c5 c6 show ?thesis
    by (intro exI[of _ ?tr'] exI[of _ M]) simp
qed

lemma update_of_matched:
  "update_matched tr bs ts params = Inr (tr', M) \<Longrightarrow>
   update tr bs ts params = Inr (tr', map snd (trajectories tr'))"
  by (simp add: update_def)

lemma tracker_inv_new: "tracker_inv new_BlobTracker"
  by (simp add: tracker_inv_def new_BlobTracker_def)

lemma tracker_inv_reset: "tracker_inv (tracker_reset tr)"
  by (simp add: tracker_inv_def tracker_reset_def)

lemma tracker_run_inv:
  "tracker_inv tr \<Longrightarrow> \<exists>tr'. tracker_run tr calls = Inr tr' \<and> tracker_inv tr'"
proof (induction calls arbitrary: tr)
  case Nil
  then show ?case by simp
next
  case (Cons c calls)
  show ?case
  proof (cases c)
    case (Update bs ts params)
    from update_matched_spec[OF Cons.prems, of bs ts params] obtain tr1 M where
      "update_matched tr bs ts params = Inr (tr1, M)" "tracker_inv tr1" by blast
    with Cons.IH[of tr1] Update show ?thesis by (auto simp: update_of_matched)
  next
    case Reset
    with Cons.IH[OF tracker_inv_reset, of tr] show ?thesis by simp
  qed
qed

lemma inactive_update_id: "\<not> active t \<Longrightarrow> t\<lparr>active := False\<rparr> = t"
  by (cases t) simp



lemma distance_horizontal: "blob_y b = p_y p \<Longrightarrow> distance b p = \<bar>blob_x b - p_x p\<bar>"
  by (simp add: distance_def)

lemmas tracker_eval =
  new_BlobTracker_def update_def update_matched_def blobStep_def AList.update.simps
  newTrajectory_def colors_def blobPoint_def deactivate_def Let_def mkBlob_def appParams_def
  distance_horizontal dist_less_def pushPoint_def maxPoints_def


section \<open>Lemmas about the feature engine\<close>

declare detectCols.simps [simp del]

declare detectRows.simps [simp del]

lemma feat_ok_mono: "feat_ok w h n f \<Longrightarrow> n \<le> m \<Longrightarrow> feat_ok w h m f"
  by (auto simp: feat_ok_def)

lemma fresh_feature_mono: "fresh_feature n m f \<Longrightarrow> m \<le> m' \<Longrightarrow> fresh_feature n m' f"
  by (auto simp: fresh_feature_def)

lemma feats_inv_snoc:
  assumes "feats_inv w h n fs" "length fs < maxFeatures"
    "stride \<le> x" "int x < int w - int stride" "stride \<le> y" "int y < int h - int stride"
  shows "feats_inv w h (Suc n) (fs @ [newFeature x y s n])"
proof -
  have "feat_ok w h (Suc n) (newFeature x y s n)"
    using assms by (simp add: feat_ok_def newFeature_def halfP_def patchSize_def stride_def)
  moreover have "n \<notin> f_id ` set fs"
    using assms(1) by (auto simp: feats_inv_def list_all_iff feat_ok_def)
  ultimately show ?thesis
    using assms(1,2)
    by (auto simp: feats_inv_def list_all_iff newFeature_def intro: feat_ok_mono)
qed

lemma detectCols_spec:
  "detectCols gray thr w y x st = (st', stop) \<Longrightarrow> feats_inv w h (snd st) (fst st) \<Longrightarrow>
   stride \<le> x \<Longrightarrow> stride \<le> y \<Longrightarrow> int y < int h - int stride \<Longrightarrow>
   feats_inv w h (snd st') (fst st') \<and> snd st \<le> snd st' \<and>
   (\<exists>new. fst st' = fst st @ new \<and> list_all (fresh_feature (snd st) (snd st')) new)"
proof (induction gray thr w y x st arbitrary: st' stop rule: detectCols.induct)
  case (1 gray thr w y x fs n)
  note eq = "1.prems"(1)[unfolded detectCols.simps[of gray thr w y x fs n]]
  show ?case
  proof (cases "int x < int w - int stride")
    case False
    with eq "1.prems" show ?thesis by auto
  next
    case inx: True
    show ?thesis
    proof (cases "length fs \<ge> maxFeatures")
      case True
      with eq inx "1.prems" show ?thesis by auto
    next
      case notfull: False
      have x': "stride \<le> x + stride" by simp
      show ?thesis
      proof (cases "tracked_near fs x y")
        case True
        with eq inx notfull have "detectCols gray thr w y (x + stride) (fs, n) = (st', stop)" by simp
        from "1.IH"(1)[OF inx notfull True this "1.prems"(2) x' "1.prems"(4,5)]
        show ?thesis by simp
      next
        case nn: False
        show ?thesis
        proof (cases "cornerScore gray w x y")
          case None
          with eq inx notfull nn have "detectCols gray thr w y (x + stride) (fs, n) = (st', stop)"
            by simp
          from "1.IH"(2)[OF inx notfull nn None this "1.prems"(2) x' "1.prems"(4,5)]
          show ?thesis by simp
        next
          case (Some s)
          show ?thesis
          proof (cases "real_of_int s > thr * 2")
            case True
            with eq inx notfull nn Some
            have r: "detectCols gray thr w y (x + stride) (fs @ [newFeature x y s n], n + 1) = (st', stop)"
              by simp
            have inv': "feats_inv w h (snd (fs @ [newFeature x y s n], n + 1))
                          (fst (fs @ [newFeature x y s n], n + 1))"
              using feats_inv_snoc[of w h n fs x y s] "1.prems" inx notfull by simp
            from "1.IH"(3)[OF inx notfull nn Some True r inv' x' "1.prems"(4,5)]
            obtain new where a: "feats_inv w h (snd st') (fst st')" "n + 1 \<le> snd st'"
              "fst st' = (fs @ [newFeature x y s n]) @ new"
              "list_all (fresh_feature (n + 1) (snd st')) new" by auto
            have "fresh_feature n (snd st') (newFeature x y s n)"
              using a(2) by (simp add: fresh_feature_def newFeature_def)
            moreover have "list_all (fresh_feature n (snd st')) new"
              using a(4) by (auto simp: list_all_iff fresh_feature_def)
            ultimately have "list_all (fresh_feature n (snd st')) (newFeature x y s n # new)" by simp
            with a show ?thesis by (intro conjI exI[of _ "newFeature x y s n # new"]) simp_all
          next
            case False
            with eq inx notfull nn Some
            have "detectCols gray thr w y (x + stride) (fs, n) = (st', stop)" by simp
            from "1.IH"(4)[OF inx notfull nn Some False this "1.prems"(2) x' "1.prems"(4,5)]
            show ?thesis by simp
          qed
        qed
      qed
    qed
  qed
qed

lemma detectRows_spec:
  "detectRows gray thr w h y st = st' \<Longrightarrow> feats_inv w h (snd st) (fst st) \<Longrightarrow> stride \<le> y \<Longrightarrow>
   feats_inv w h (snd st') (fst st') \<and> snd st \<le> snd st' \<and>
   (\<exists>new. fst st' = fst st @ new \<and> list_all (fresh_feature (snd st) (snd st')) new)"
proof (induction gray thr w h y st arbitrary: st' rule: detectRows.induct)
  case (1 gray thr w h y st)
  note eq = "1.prems"(1)[unfolded detectRows.simps[of gray thr w h y st]]
  show ?case
  proof (cases "int y < int h - int stride")
    case False
    with eq "1.prems" show ?thesis by auto
  next
    case iny: True
    obtain st1 stop where c: "detectCols gray thr w y stride st = (st1, stop)"
      by (cases "detectCols gray thr w y stride st")
    from detectCols_spec[OF c "1.prems"(2) order_refl "1.prems"(3) iny]
    obtain new1 where a: "feats_inv w h (snd st1) (fst st1)" "snd st \<le> snd st1"
      "fst st1 = fst st @ new1" "list_all (fresh_feature (snd st) (snd st1)) new1" by auto
    show ?thesis
    proof (cases stop)
      case True
      with eq iny c have "st' = st1" by simp
      with a show ?thesis by auto
    next
      case False
      with eq iny c have r: "detectRows gray thr w h (y + stride) st1 = st'" by simp
      have y': "stride \<le> y + stride" by simp
      from "1.IH"[OF iny c[symmetric] _ r a(1) y'] False
      obtain new2 where b: "feats_inv w h (snd st') (fst st')" "snd st1 \<le> snd st'"
        "fst st' = fst st1 @ new2" "list_all (fresh_feature (snd st1) (snd st')) new2" by auto
      have "list_all (fresh_feature (snd st) (snd st')) (new1 @ new2)"
        using a(2,4) b(2,4) by (auto simp: list_all_iff fresh_feature_def)
      with a b show ?thesis by (intro conjI exI[of _ "new1 @ new2"]) simp_all
    qed
  qed
qed

lemma detectNewFeatures_spec:
  assumes "feats_inv (width e) (height e) (nextFeatureId e) (activeFeatures e)"
  shows "feats_inv (width e) (height e) (nextFeatureId (detectNewFeatures gray thr e))
           (activeFeatures (detectNewFeatures gray thr e)) \<and>
         nextFeatureId e \<le> nextFeatureId (detectNewFeatures gray thr e) \<and>
         width (detectNewFeatures gray thr e) = width e \<and>
         height (detectNewFeatures gray thr e) = height e \<and>
         prevGray (detectNewFeatures gray thr e) = prevGray e \<and>
         (\<exists>new. activeFeatures (detectNewFeatures gray thr e) = activeFeatures e @ new \<and>
                list_all (fresh_feature (nextFeatureId e) (nextFeatureId (detectNewFeatures gray thr e))) new)"
proof -
  obtain fs n where r: "detectRows gray thr (width e) (height e) stride
             (activeFeatures e, nextFeatureId e) = (fs, n)"
    by (cases "detectRows gray thr (width e) (height e) stride (activeFeatures e, nextFeatureId e)")
  from detectRows_spec[OF r] assms show ?thesis
    by (simp add: detectNewFeatures_def r)
qed

lemma detectCols_full:
  "length fs \<ge> maxFeatures \<Longrightarrow> fst (detectCols gray thr w y x (fs, n)) = (fs, n)"
  by (simp add: detectCols.simps[of gray thr w y x fs n])

lemma detectRows_full:
  "length (fst st) \<ge> maxFeatures \<Longrightarrow> detectRows gray thr w h y st = st"
proof (induction gray thr w h y st rule: detectRows.induct)
  case (1 gray thr w h y st)
  obtain fs n where st: "st = (fs, n)" by (cases st)
  obtain st1 stop where c: "detectCols gray thr w y stride st = (st1, stop)"
    by (cases "detectCols gray thr w y stride st")
  from detectCols_full[of fs gray thr w y stride n] "1.prems" st c have st1: "st1 = st" by simp
  show ?case
  proof (cases "int y < int h - int stride")
    case False
    then show ?thesis by (simp add: detectRows.simps[of gray thr w h y st])
  next
    case True
    show ?thesis
    proof (cases stop)
      case True
      with \<open>int y < int h - int stride\<close> c st1 show ?thesis
        by (simp add: detectRows.simps[of gray thr w h y st])
    next
      case False
      from "1.IH"[OF True c[symmetric] _ ] False st1 "1.prems"
      have "detectRows gray thr w h (y + stride) st = st" by simp
      with True c st1 False show ?thesis
        by (simp add: detectRows.simps[of gray thr w h y st])
    qed
  qed
qed

lemma detectNewFeatures_full:
  "length (activeFeatures e) \<ge> maxFeatures \<Longrightarrow> detectNewFeatures gray thr e = e"
  by (cases e) (simp add: detectNewFeatures_def detectRows_full)

lemma searchStep_fm:
  "searchStep w h f prev cur dy dx (search_state f acc) =
   search_state f (fm_step (candSAD w h prev cur f) (f_x f + dx, f_y f + dy) acc)"
proof (cases acc)
  case None
  then show ?thesis
    by (simp add: searchStep_def search_state_def fm_step_def candSAD_def Let_def sad_less_def
          split: option.splits)
next
  case (Some a)
  obtain nx ny s where "a = ((nx, ny), s)" by (cases a) auto
  with Some show ?thesis
    by (simp add: searchStep_def search_state_def fm_step_def candSAD_def Let_def sad_less_def
          split: option.splits)
qed

lemma fold_searchStep_row:
  "fold (\<lambda>dx best. searchStep w h f prev cur dy dx best) dxs (search_state f acc) =
   search_state f (fold (fm_step (candSAD w h prev cur f)) (map (\<lambda>dx. (f_x f + dx, f_y f + dy)) dxs) acc)"
  by (induction dxs arbitrary: acc) (simp_all add: searchStep_fm)

lemma fold_searchStep_rows:
  "fold (\<lambda>dy best. fold (\<lambda>dx best. searchStep w h f prev cur dy dx best) dxs best) dys
     (search_state f acc) =
   search_state f (fold (fm_step (candSAD w h prev cur f))
     (concat (map (\<lambda>dy. map (\<lambda>dx. (f_x f + dx, f_y f + dy)) dxs) dys)) acc)"
  by (induction dys arbitrary: acc) (simp_all add: fold_searchStep_row)

lemma searchLoop_first_min:
  "searchLoop w h f prev cur = search_state f (first_min (candSAD w h prev cur f) (raster f))"
  using fold_searchStep_rows[of w h f prev cur "[- halfS..halfS]" "[- halfS..halfS]" None]
  by (simp add: searchLoop_def first_min_def raster_def search_state_def)

lemma findMatch_first_min:
  "findMatch w h f prev cur =
     (case first_min (candSAD w h prev cur f) (raster f) of
        None \<Rightarrow> None
      | Some (c, s) \<Rightarrow> if s < acceptSAD then Some c else None)"
  by (simp add: findMatch_def searchLoop_first_min search_state_def bound_less_def
        split: option.splits prod.splits)

lemma findMatch_Some_iff:
  "findMatch w h f prev cur = Some c \<longleftrightarrow>
     (\<exists>i s. is_first_min (candSAD w h prev cur f) (raster f) i s \<and> raster f ! i = c \<and> s < acceptSAD)"
proof
  assume "findMatch w h f prev cur = Some c"
  then obtain s where "first_min (candSAD w h prev cur f) (raster f) = Some (c, s)" "s < acceptSAD"
    by (auto simp: findMatch_first_min split: option.splits if_splits)
  then show "\<exists>i s. is_first_min (candSAD w h prev cur f) (raster f) i s \<and> raster f ! i = c \<and> s < acceptSAD"
    by (auto simp: first_min_iff)
next
  assume "\<exists>i s. is_first_min (candSAD w h prev cur f) (raster f) i s \<and> raster f ! i = c \<and> s < acceptSAD"
  then obtain s where "first_min (candSAD w h prev cur f) (raster f) = Some (c, s)" "s < acceptSAD"
    by (auto simp: first_min_iff)
  then show "findMatch w h f prev cur = Some c" by (simp add: findMatch_first_min)
qed

lemma findMatch_in_frame:
  assumes "findMatch w h f prev cur = Some (nx, ny)"
  shows "\<not> outOfFrame w h nx ny"
proof -
  from assms obtain i s where "is_first_min (candSAD w h prev cur f) (raster f) i s"
    "raster f ! i = (nx, ny)" by (auto simp: findMatch_Some_iff)
  then have "candSAD w h prev cur f (nx, ny) = Some s" by (simp add: is_first_min_def)
  then show ?thesis by (auto simp: candSAD_def split: if_splits)
qed

lemma fold_js_add:
  "(\<And>x. x \<in> set xs \<Longrightarrow> t x = Some (g x)) \<Longrightarrow>
   fold (\<lambda>x sad. js_add sad (t x)) xs (Some a) = Some (a + sum_list (map g xs))"
  by (induction xs arbitrary: a) (simp_all add: js_add_def add.assoc)

lemma fold_js_add2:
  assumes "\<And>x y. x \<in> set xs \<Longrightarrow> y \<in> set ys \<Longrightarrow> t x y = Some (g x y)"
  shows "fold (\<lambda>x sad. fold (\<lambda>y sad. js_add sad (t x y)) ys sad) xs (Some a) =
         Some (a + (\<Sum>x\<leftarrow>xs. \<Sum>y\<leftarrow>ys. g x y))"
  using assms
proof (induction xs arbitrary: a)
  case Nil
  then show ?case by simp
next
  case (Cons x xs)
  have "fold (\<lambda>y sad. js_add sad (t x y)) ys (Some a) = Some (a + sum_list (map (g x) ys))"
    by (rule fold_js_add) (simp add: Cons.prems)
  then show ?case using Cons.IH[of "a + sum_list (map (g x) ys)"] Cons.prems
    by (simp add: add.assoc)
qed

lemma gray_at_in_frame:
  assumes "length g = w * h" "0 \<le> a" "a < int w" "0 \<le> b" "b < int h"
  shows "gray_at g (b * int w + a) = Some (int (g ! nat (b * int w + a)))"
proof -
  have "b * int w \<le> (int h - 1) * int w" using assms by (intro mult_right_mono) auto
  then have "b * int w + a < int h * int w" using assms by (simp add: algebra_simps)
  moreover have "0 \<le> b * int w + a" using assms by simp
  ultimately have "nat (b * int w + a) < w * h"
    using nat_less_iff[of "b * int w + a" "w * h"] by (simp add: mult.commute)
  then show ?thesis using assms \<open>0 \<le> b * int w + a\<close> by (simp add: gray_at_def)
qed

lemma patchSAD_in_frame:
  assumes "length prev = w * h" "length cur = w * h"
    "\<not> outOfFrame w h fx fy" "\<not> outOfFrame w h nx ny"
  shows "patchSAD w prev cur fx fy nx ny = Some (sad_spec w prev cur fx fy nx ny)"
proof -
  have hp: "halfP = 3" by (simp add: halfP_def patchSize_def)
  have "patchSAD w prev cur fx fy nx ny =
        Some (0 + (\<Sum>py\<leftarrow>[- halfP..halfP]. \<Sum>px\<leftarrow>[- halfP..halfP].
          \<bar>int (prev ! nat ((fy + py) * int w + (fx + px))) -
           int (cur ! nat ((ny + py) * int w + (nx + px)))\<bar>))"
    unfolding patchSAD_def
  proof (rule fold_js_add2)
    fix py px assume "py \<in> set [- halfP..halfP]" "px \<in> set [- halfP..halfP]"
    then have r: "- 3 \<le> py" "py \<le> 3" "- 3 \<le> px" "px \<le> 3"
      by (simp_all add: hp del: upto_rec_numeral upto.simps)
    from assms(3,4) have b: "3 \<le> fx" "fx < int w - 3" "3 \<le> fy" "fy < int h - 3"
      "3 \<le> nx" "nx < int w - 3" "3 \<le> ny" "ny < int h - 3"
      by (simp_all add: outOfFrame_def hp)
    have "gray_at prev ((fy + py) * int w + (fx + px)) =
          Some (int (prev ! nat ((fy + py) * int w + (fx + px))))"
      using r b by (intro gray_at_in_frame[OF assms(1)]) auto
    moreover have "gray_at cur ((ny + py) * int w + (nx + px)) =
          Some (int (cur ! nat ((ny + py) * int w + (nx + px))))"
      using r b by (intro gray_at_in_frame[OF assms(2)]) auto
    ultimately show "js_absdiff (gray_at prev ((fy + py) * int w + (fx + px)))
            (gray_at cur ((ny + py) * int w + (nx + px))) =
          Some \<bar>int (prev ! nat ((fy + py) * int w + (fx + px))) -
           int (cur ! nat ((ny + py) * int w + (nx + px)))\<bar>"
      by (simp add: js_absdiff_def)
  qed
  then show ?thesis by (simp add: sad_spec_def hp)
qed

lemma sum_list_abs_nonneg: "(0::int) \<le> (\<Sum>y\<leftarrow>ys. \<bar>g y\<bar>)"
  by (rule sum_list_nonneg) auto

lemma sum_list2_abs_nonneg: "(0::int) \<le> (\<Sum>x\<leftarrow>xs. \<Sum>y\<leftarrow>ys. \<bar>g x y\<bar>)"
  by (rule sum_list_nonneg) (auto intro: sum_list_abs_nonneg)

lemma sad_spec_nonneg: "0 \<le> sad_spec w prev cur fx fy nx ny"
  unfolding sad_spec_def by (rule sum_list2_abs_nonneg)

lemma sad_spec_same: "sad_spec w g g fx fy fx fy = 0"
  unfolding sad_spec_def by simp

lemma fold_trackStep:
  "fold (trackStep w h prev cur) fs acc = acc @ List.map_filter (trackOne w h prev cur) fs"
  by (induction fs arbitrary: acc)
     (auto simp: trackStep_def trackOne_def List.map_filter_simps split: option.splits)

lemma trackFeatures_map_filter:
  "trackFeatures w h prev cur fs = List.map_filter (trackOne w h prev cur) fs"
  by (simp add: trackFeatures_def fold_trackStep)

lemma length_toGrayscale: "length (toGrayscale luma w h data) = w * h"
  by (simp add: toGrayscale_def)

lemma detectCols_length:
  "length (fst st) \<le> maxFeatures \<Longrightarrow>
   length (fst (fst (detectCols gray thr w y x st))) \<le> maxFeatures"
proof (induction gray thr w y x st rule: detectCols.induct)
  case (1 gray thr w y x fs n)
  show ?case
    using "1.IH" "1.prems"
    by (simp add: detectCols.simps[of gray thr w y x fs n] split: option.splits)
qed

lemma detectRows_length:
  "length (fst st) \<le> maxFeatures \<Longrightarrow>
   length (fst (detectRows gray thr w h y st)) \<le> maxFeatures"
proof (induction gray thr w h y st rule: detectRows.induct)
  case (1 gray thr w h y st)
  obtain st1 stop where c: "detectCols gray thr w y stride st = (st1, stop)"
    by (cases "detectCols gray thr w y stride st")
  from detectCols_length[OF "1.prems", of gray thr w y stride] c
  have l1: "length (fst st1) \<le> maxFeatures" by simp
  show ?case
  proof (cases "int y < int h - int stride")
    case False
    with "1.prems" show ?thesis by (simp add: detectRows.simps[of gray thr w h y st])
  next
    case True
    show ?thesis
    proof (cases stop)
      case True
      with \<open>int y < int h - int stride\<close> c l1 show ?thesis
        by (simp add: detectRows.simps[of gray thr w h y st])
    next
      case False
      from "1.IH"[OF True c[symmetric] _ l1] False
      have "length (fst (detectRows gray thr w h (y + stride) st1)) \<le> maxFeatures" by simp
      with True c False show ?thesis
        by (simp add: detectRows.simps[of gray thr w h y st])
    qed
  qed
qed

lemma detectNewFeatures_length:
  "length (activeFeatures e) \<le> maxFeatures \<Longrightarrow>
   length (activeFeatures (detectNewFeatures gray thr e)) \<le> maxFeatures"
proof -
  assume a: "length (activeFeatures e) \<le> maxFeatures"
  obtain fs n where r: "detectRows gray thr (width e) (height e) stride
             (activeFeatures e, nextFeatureId e) = (fs, n)"
    by (cases "detectRows gray thr (width e) (height e) stride (activeFeatures e, nextFeatureId e)")
  from detectRows_length[of "(activeFeatures e, nextFeatureId e)" gray thr "width e" "height e" stride]
    a r have "length fs \<le> maxFeatures" by simp
  then show ?thesis by (simp add: detectNewFeatures_def r)
qed

lemma trackOne_Some:
  "trackOne w h prev cur f = Some f' \<Longrightarrow>
   \<exists>nx ny. findMatch w h f prev cur = Some (nx, ny) \<and>
     f' = f\<lparr>f_x := nx, f_y := ny, f_vx := nx - f_x f, f_vy := ny - f_y f, f_age := f_age f + 1\<rparr>"
  by (auto simp: trackOne_def)

lemma trackOne_id: "trackOne w h prev cur f = Some f' \<Longrightarrow> f_id f' = f_id f"
  by (auto dest: trackOne_Some)

lemma map_id_tracked:
  "map f_id (List.map_filter (trackOne w h prev cur) fs) =
   map f_id (filter (\<lambda>f. trackOne w h prev cur f \<noteq> None) fs)"
  by (induction fs) (auto simp: List.map_filter_simps trackOne_id split: option.splits)

lemma set_map_filter: "set (List.map_filter g xs) = {y. \<exists>x\<in>set xs. g x = Some y}"
  by (induction xs) (auto simp: List.map_filter_simps split: option.splits)

lemma length_map_filter_le: "length (List.map_filter g xs) \<le> length xs"
  by (induction xs) (auto simp: List.map_filter_simps split: option.splits)

lemma feats_inv_tracked:
  assumes "feats_inv w h n fs"
  shows "feats_inv w h n (List.map_filter (trackOne w h prev cur) fs)"
proof -
  have ok: "feat_ok w h n f'" if "f' \<in> set (List.map_filter (trackOne w h prev cur) fs)" for f'
  proof -
    from that obtain f where f: "f \<in> set fs" "trackOne w h prev cur f = Some f'"
      by (auto simp: set_map_filter)
    from trackOne_Some[OF f(2)] obtain nx ny where m: "findMatch w h f prev cur = Some (nx, ny)"
      and f': "f' = f\<lparr>f_x := nx, f_y := ny, f_vx := nx - f_x f, f_vy := ny - f_y f,
                      f_age := f_age f + 1\<rparr>" by blast
    from findMatch_in_frame[OF m] have "\<not> outOfFrame w h nx ny" .
    moreover from assms f(1) have "f_id f < n" by (auto simp: feats_inv_def list_all_iff feat_ok_def)
    ultimately show ?thesis by (simp add: feat_ok_def f' outOfFrame_def)
  qed
  have "distinct (map f_id (List.map_filter (trackOne w h prev cur) fs))"
    using assms unfolding map_id_tracked by (simp add: feats_inv_def distinct_map_filter)
  moreover have "length (List.map_filter (trackOne w h prev cur) fs) \<le> maxFeatures"
    using assms length_map_filter_le[of "trackOne w h prev cur" fs] by (simp add: feats_inv_def)
  ultimately show ?thesis using ok by (simp add: feats_inv_def list_all_iff)
qed

lemma process_first:
  assumes "prevGray e = None"
  shows "process luma e data thr =
     (detectNewFeatures (toGrayscale luma (width e) (height e) data) thr
        (e\<lparr>prevGray := Some (toGrayscale luma (width e) (height e) data)\<rparr>),
      \<lparr>blobs = [],
       features = activeFeatures (detectNewFeatures (toGrayscale luma (width e) (height e) data) thr
        (e\<lparr>prevGray := Some (toGrayscale luma (width e) (height e) data)\<rparr>))\<rparr>)"
  using assms by (simp add: process_def Let_def)

lemma process_next:
  assumes "prevGray e = Some prev"
  shows "fst (process luma e data thr) =
     (let gray = toGrayscale luma (width e) (height e) data;
          e1 = e\<lparr>activeFeatures := List.map_filter (trackOne (width e) (height e) prev gray)
                                      (activeFeatures e)\<rparr>;
          e2 = (if length (activeFeatures e1) < 50 then detectNewFeatures gray thr e1 else e1)
      in e2\<lparr>prevGray := Some gray\<rparr>)"
  using assms by (simp add: process_def Let_def trackFeatures_map_filter)

lemma process_features: "features (snd (process luma e data thr)) = activeFeatures (fst (process luma e data thr))"
  by (simp add: process_def Let_def split: option.splits)

lemma process_spec:
  assumes inv: "engine_inv e"
  shows "engine_inv (fst (process luma e data thr)) \<and>
         width (fst (process luma e data thr)) = width e \<and>
         height (fst (process luma e data thr)) = height e \<and>
         prevGray (fst (process luma e data thr)) = Some (toGrayscale luma (width e) (height e) data) \<and>
         nextFeatureId e \<le> nextFeatureId (fst (process luma e data thr)) \<and>
         (\<exists>new. activeFeatures (fst (process luma e data thr)) =
                  (case prevGray e of
                     None \<Rightarrow> activeFeatures e
                   | Some prev \<Rightarrow>
                       List.map_filter (trackOne (width e) (height e) prev
                          (toGrayscale luma (width e) (height e) data)) (activeFeatures e)) @ new \<and>
                list_all (fresh_feature (nextFeatureId e)
                            (nextFeatureId (fst (process luma e data thr)))) new)"
proof -
  let ?g = "toGrayscale luma (width e) (height e) data"
  from inv have fi: "feats_inv (width e) (height e) (nextFeatureId e) (activeFeatures e)"
    by (simp add: engine_inv_def)
  show ?thesis
  proof (cases "prevGray e")
    case None
    let ?e0 = "e\<lparr>prevGray := Some ?g\<rparr>"
    have "feats_inv (width ?e0) (height ?e0) (nextFeatureId ?e0) (activeFeatures ?e0)"
      using fi by simp
    from detectNewFeatures_spec[OF this, of ?g thr] show ?thesis
      by (simp add: process_first[OF None] engine_inv_def length_toGrayscale None)
  next
    case (Some prev)
    let ?tr = "List.map_filter (trackOne (width e) (height e) prev ?g) (activeFeatures e)"
    let ?e1 = "e\<lparr>activeFeatures := ?tr\<rparr>"
    have fi1: "feats_inv (width ?e1) (height ?e1) (nextFeatureId ?e1) (activeFeatures ?e1)"
      using feats_inv_tracked[OF fi, of prev ?g] by simp
    show ?thesis
    proof (cases "length ?tr < 50")
      case True
      from detectNewFeatures_spec[OF fi1, of ?g thr] True show ?thesis
        by (simp add: process_next[OF Some] Let_def engine_inv_def length_toGrayscale Some)
    next
      case False
      with fi1 show ?thesis
        by (simp add: process_next[OF Some] Let_def engine_inv_def length_toGrayscale Some)
    qed
  qed
qed

lemma engine_inv_new: "engine_inv (new_CVEngine w h)"
  by (simp add: engine_inv_def new_CVEngine_def feats_inv_def)

lemma engine_inv_reset: "engine_inv (reset e)"
  by (simp add: engine_inv_def reset_def feats_inv_def)

lemma engine_run_inv: "engine_inv e \<Longrightarrow> engine_inv (engine_run luma e calls)"
proof (induction calls arbitrary: e)
  case Nil
  then show ?case by simp
next
  case (Cons c calls)
  show ?case
  proof (cases c)
    case (Process d t)
    with Cons.IH[of "fst (process luma e d t)"] process_spec[OF Cons.prems, of luma d t]
    show ?thesis by simp
  next
    case ResetEngine
    with Cons.IH[OF engine_inv_reset, of e] show ?thesis by simp
  qed
qed

lemma raster_eq:
  "raster f = map (\<lambda>i. (f_x f + (int (i mod 15) - 7), f_y f + (int (i div 15) - 7))) [0..<225]"
  by (simp add: raster_def halfS_def searchWindow_def upt_rec upto.simps)

lemma length_raster: "length (raster f) = 225"
  by (simp add: raster_eq)

lemma raster_nth:
  "i < 225 \<Longrightarrow> raster f ! i = (f_x f + (int (i mod 15) - 7), f_y f + (int (i div 15) - 7))"
  by (simp add: raster_eq del: upt_Suc)

lemma raster_centre: "raster f ! 112 = (f_x f, f_y f)"
  by (simp add: raster_nth)

lemma raster_inj:
  assumes "i < 225" "j < 225" "raster f ! i = raster f ! j"
  shows "i = j"
proof -
  from assms have "i mod 15 = j mod 15" "i div 15 = j div 15" by (simp_all add: raster_nth)
  then show ?thesis by (metis div_mult_mod_eq)
qed

lemma candSAD_in_frame:
  assumes "length prev = w * h" "length cur = w * h" "\<not> outOfFrame w h (f_x f) (f_y f)"
  shows "candSAD w h prev cur f c =
         (if outOfFrame w h (fst c) (snd c) then None
          else Some (sad_spec w prev cur (f_x f) (f_y f) (fst c) (snd c)))"
  using patchSAD_in_frame[OF assms(1,2,3), of "fst c" "snd c"] by (simp add: candSAD_def)

lemma feat_ok_in_frame: "feat_ok w h n f \<Longrightarrow> \<not> outOfFrame w h (f_x f) (f_y f)"
  by (auto simp: feat_ok_def outOfFrame_def)

lemma identical_first_zero:
  assumes len: "length g = w * h" and inf: "\<not> outOfFrame w h (f_x f) (f_y f)"
  shows "\<exists>i. i \<le> 112 \<and> is_first_min (candSAD w h g g f) (raster f) i 0 \<and>
             findMatch w h f g g = Some (raster f ! i) \<and>
             (raster f ! i = (f_x f, f_y f) \<longleftrightarrow>
                (\<forall>j<112. candSAD w h g g f (raster f ! j) \<noteq> Some 0))"
proof -
  note cs = candSAD_in_frame[OF len len inf]
  have c0: "candSAD w h g g f (raster f ! 112) = Some 0"
    using inf by (simp add: cs raster_centre sad_spec_same)
  have nn: "0 \<le> u" if "candSAD w h g g f c = Some u" for c u
    using that sad_spec_nonneg[of w g g "f_x f" "f_y f" "fst c" "snd c"]
    by (auto simp: cs split: if_splits)
  have "raster f ! 112 \<in> set (raster f)" by (rule nth_mem) (simp add: length_raster)
  with c0 have "first_min (candSAD w h g g f) (raster f) \<noteq> None"
    by (auto simp: first_min_None)
  then obtain c s where fm: "first_min (candSAD w h g g f) (raster f) = Some (c, s)"
    by (cases "first_min (candSAD w h g g f) (raster f)") auto
  from first_min_Some[OF fm] obtain i where
    i: "is_first_min (candSAD w h g g f) (raster f) i s" "raster f ! i = c" by blast
  from i(1) have il: "i < 225" and si: "candSAD w h g g f (raster f ! i) = Some s"
    and le: "\<And>j u. j < 225 \<Longrightarrow> candSAD w h g g f (raster f ! j) = Some u \<Longrightarrow> s \<le> u"
    and lt: "\<And>j u. j < i \<Longrightarrow> candSAD w h g g f (raster f ! j) = Some u \<Longrightarrow> s < u"
    by (auto simp: is_first_min_def length_raster)
  from le[of 112 0] c0 nn[OF si] have s0: "s = 0" by simp
  have i112: "i \<le> 112"
  proof (rule ccontr)
    assume "\<not> i \<le> 112"
    then have "112 < i" by simp
    from lt[OF this c0] s0 show False by simp
  qed
  have m: "findMatch w h f g g = Some (raster f ! i)"
    using fm i(2) s0 by (simp add: findMatch_first_min acceptSAD_def)
  have iff: "raster f ! i = (f_x f, f_y f) \<longleftrightarrow> (\<forall>j<112. candSAD w h g g f (raster f ! j) \<noteq> Some 0)"
  proof
    assume "raster f ! i = (f_x f, f_y f)"
    then have "raster f ! i = raster f ! 112" by (simp add: raster_centre)
    from raster_inj[OF il _ this] have "i = 112" by simp
    with lt s0 show "\<forall>j<112. candSAD w h g g f (raster f ! j) \<noteq> Some 0" by fastforce
  next
    assume a: "\<forall>j<112. candSAD w h g g f (raster f ! j) \<noteq> Some 0"
    have "i = 112"
    proof (rule ccontr)
      assume "i \<noteq> 112"
      with i112 have "i < 112" by simp
      with a si s0 show False by simp
    qed
    then show "raster f ! i = (f_x f, f_y f)" by (simp add: raster_centre)
  qed
  from i112 i(1) s0 m iff show ?thesis by blast
qed

lemma toGrayscale_gray_frame:
  assumes "\<And>i. luma (v i) (v i) (v i) = v i"
  shows "toGrayscale luma w h (map (\<lambda>j. v (j div 4)) [0..<4 * (w * h)]) = map v [0..<w * h]"
  unfolding toGrayscale_def
proof (rule map_cong[OF refl])
  fix i assume "i \<in> set [0..<w * h]"
  then have i: "i < w * h" by simp
  then have "i * 4 + 2 < 4 * (w * h)" by simp
  moreover have "(i * 4) div 4 = i" "(i * 4 + 1) div 4 = i" "(i * 4 + 2) div 4 = i" by simp_all
  ultimately show "(if i * 4 + 2 < length (map (\<lambda>j. v (j div 4)) [0..<4 * (w * h)])
          then luma (map (\<lambda>j. v (j div 4)) [0..<4 * (w * h)] ! (i * 4))
                 (map (\<lambda>j. v (j div 4)) [0..<4 * (w * h)] ! (i * 4 + 1))
                 (map (\<lambda>j. v (j div 4)) [0..<4 * (w * h)] ! (i * 4 + 2))
          else 0) = v i"
    using assms by (simp del: upt_Suc)
qed

lemma toGrayscale_stripes: "toGrayscale luma_round 31 31 stripes = map stripe_px [0..<961]"
proof -
  have "luma_round (stripe_px i) (stripe_px i) (stripe_px i) = stripe_px i" for i
    by (simp add: luma_round_def stripe_px_def)
  from toGrayscale_gray_frame[of luma_round stripe_px 31 31, OF this]
  show ?thesis by (simp add: stripes_def)
qed

lemma gray_at_map_upt:
  "gray_at (map v [0..<n]) i = (if 0 \<le> i \<and> nat i < n then Some (int (v (nat i))) else None)"
  by (simp add: gray_at_def del: upt_Suc)

lemma process_stripes_first:
  "process luma_round (new_CVEngine 31 31) stripes 30 =
     (\<lparr>width = 31, height = 31, prevGray = Some (map stripe_px [0..<961]),
       activeFeatures = [\<lparr>f_x = 15, f_y = 15, f_vx = 0, f_vy = 0, f_score = 510, f_id = 0, f_age = 0\<rparr>],
       nextFeatureId = 1\<rparr>,
      \<lparr>blobs = [],
       features = [\<lparr>f_x = 15, f_y = 15, f_vx = 0, f_vy = 0, f_score = 510, f_id = 0, f_age = 0\<rparr>]\<rparr>)"
  by (simp add: process_def new_CVEngine_def toGrayscale_stripes detectNewFeatures_def
        detectRows.simps detectCols.simps stride_def maxFeatures_def tracked_near_def
        cornerScore_def gray_at_map_upt js_add_def js_absdiff_def stripe_px_def newFeature_def
        Let_def del: upt_Suc)

lemma sad_stripes_shift: "sad_spec 31 (map stripe_px [0..<961]) (map stripe_px [0..<961]) 15 15 8 8 = 0"
  by (simp add: sad_spec_def upto.simps stripe_px_def del: upt_Suc)

lemma findMatch_stripes:
  "findMatch 31 31 \<lparr>f_x = 15, f_y = 15, f_vx = 0, f_vy = 0, f_score = 510, f_id = 0, f_age = 0\<rparr>
     (map stripe_px [0..<961]) (map stripe_px [0..<961]) = Some (8, 8)"
proof -
  let ?f = "\<lparr>f_x = 15, f_y = 15, f_vx = 0, f_vy = 0, f_score = 510, f_id = 0, f_age = 0\<rparr>"
  let ?g = "map stripe_px [0..<961]"
  have inf: "\<not> outOfFrame 31 31 (f_x ?f) (f_y ?f)"
    by (simp add: outOfFrame_def halfP_def patchSize_def)
  have len: "length ?g = 31 * 31" by simp
  note cs = candSAD_in_frame[OF len len inf]
  have r0: "raster ?f ! 0 = (8, 8)" by (simp add: raster_nth)
  have c0: "candSAD 31 31 ?g ?g ?f (raster ?f ! 0) = Some 0"
    unfolding r0 cs using sad_stripes_shift
    by (simp add: outOfFrame_def halfP_def patchSize_def)
  have fm: "is_first_min (candSAD 31 31 ?g ?g ?f) (raster ?f) 0 0"
    unfolding is_first_min_def
  proof (intro conjI allI impI)
    show "0 < length (raster ?f)" by (simp add: length_raster)
    show "candSAD 31 31 ?g ?g ?f (raster ?f ! 0) = Some 0" by (rule c0)
  next
    fix j u assume "candSAD 31 31 ?g ?g ?f (raster ?f ! j) = Some u"
    then show "0 \<le> u"
      using sad_spec_nonneg[of 31 ?g ?g 15 15 "fst (raster ?f ! j)" "snd (raster ?f ! j)"]
      by (auto simp: cs split: if_splits)
  next
    fix j :: nat and u :: int assume "j < 0"
    then show "0 < u" by simp
  qed
  show ?thesis
    unfolding findMatch_Some_iff using fm r0
    by (intro exI[of _ 0] exI[of _ "0::int"]) (simp add: acceptSAD_def)
qed

lemma process_stripes_second:
  "fst (process luma_round
     \<lparr>width = 31, height = 31, prevGray = Some (map stripe_px [0..<961]),
       activeFeatures = [\<lparr>f_x = 15, f_y = 15, f_vx = 0, f_vy = 0, f_score = 510, f_id = 0, f_age = 0\<rparr>],
       nextFeatureId = 1\<rparr> stripes 30) =
     \<lparr>width = 31, height = 31, prevGray = Some (map stripe_px [0..<961]),
       activeFeatures = [\<lparr>f_x = 8, f_y = 8, f_vx = - 7, f_vy = - 7, f_score = 510, f_id = 0, f_age = 1\<rparr>],
       nextFeatureId = 1\<rparr>"
proof -
  let ?f = "\<lparr>f_x = 15, f_y = 15, f_vx = 0, f_vy = 0, f_score = 510, f_id = 0, f_age = 0\<rparr>"
  let ?g = "map stripe_px [0..<961]"
  let ?e = "\<lparr>width = 31, height = 31, prevGray = Some ?g, activeFeatures = [?f],
             nextFeatureId = 1\<rparr>"
  have pg: "prevGray ?e = Some ?g" by simp
  have tr: "trackOne 31 31 ?g ?g ?f =
            Some \<lparr>f_x = 8, f_y = 8, f_vx = - 7, f_vy = - 7, f_score = 510, f_id = 0, f_age = 1\<rparr>"
    by (simp add: trackOne_def findMatch_stripes)
  show ?thesis
    unfolding process_next[OF pg]
    by (simp add: toGrayscale_stripes tr List.map_filter_simps detectNewFeatures_def
        detectRows.simps detectCols.simps stride_def maxFeatures_def tracked_near_def
        Let_def del: upt_Suc)
qed

lemma sqrt_less_60: "sqrt (real_of_int n) < 60 \<longleftrightarrow> n < 3600"
proof -
  have "sqrt (real_of_int n) < sqrt 3600 \<longleftrightarrow> real_of_int n < 3600" by (rule real_sqrt_less_iff)
  moreover have "sqrt 3600 = 60" using real_sqrt_abs[of 60] by simp
  ultimately show ?thesis by simp
qed

lemma sqrt_less_2: "sqrt (real_of_int n) < 2 \<longleftrightarrow> n < 4"
proof -
  have "sqrt (real_of_int n) < sqrt 4 \<longleftrightarrow> real_of_int n < 4" by (rule real_sqrt_less_iff)
  moreover have "sqrt 4 = 2" using real_sqrt_abs[of 2] by simp
  ultimately show ?thesis by simp
qed

lemma nearSeed_iff:
  "nearSeed f other \<longleftrightarrow>
     (f_x f - f_x other)\<^sup>2 + (f_y f - f_y other)\<^sup>2 < 3600 \<and>
     (f_vx f - f_vx other)\<^sup>2 + (f_vy f - f_vy other)\<^sup>2 < 4"
  unfolding nearSeed_def Let_def sqrt_less_60 sqrt_less_2 by simp

lemma isMoving_iff: "isMoving f \<longleftrightarrow> f_vx f \<noteq> 0 \<or> f_vy f \<noteq> 0"
proof -
  have "real_of_int (\<bar>f_vx f\<bar> + \<bar>f_vy f\<bar>) > 0.2 \<longleftrightarrow> \<bar>f_vx f\<bar> + \<bar>f_vy f\<bar> \<ge> 1"
  proof
    assume "real_of_int (\<bar>f_vx f\<bar> + \<bar>f_vy f\<bar>) > 0.2"
    then have "real_of_int (\<bar>f_vx f\<bar> + \<bar>f_vy f\<bar>) > 0" by simp
    then have "\<bar>f_vx f\<bar> + \<bar>f_vy f\<bar> > 0" by linarith
    then show "\<bar>f_vx f\<bar> + \<bar>f_vy f\<bar> \<ge> 1" by simp
  next
    assume "\<bar>f_vx f\<bar> + \<bar>f_vy f\<bar> \<ge> 1"
    then have "real_of_int (\<bar>f_vx f\<bar> + \<bar>f_vy f\<bar>) \<ge> 1" by linarith
    then show "real_of_int (\<bar>f_vx f\<bar> + \<bar>f_vy f\<bar>) > 0.2" by simp
  qed
  then show ?thesis unfolding isMoving_def by auto
qed

lemma Min_insert_min:
  "finite A \<Longrightarrow> Min (insert (min a b) A) = Min (insert (a::int) (insert b A))"
  by (cases "A = {}") (simp_all add: min.assoc)

lemma Max_insert_max:
  "finite A \<Longrightarrow> Max (insert (max a b) A) = Max (insert (a::int) (insert b A))"
  by (cases "A = {}") (simp_all add: max.assoc)

lemma fold_groupStep:
  assumes "distinct (map f_id ms)"
  shows "fold (groupStep f) ms (g, V, a, b, c, d) =
     (g @ filter (\<lambda>other. f_id other \<notin> V \<and> nearSeed f other) ms,
      V \<union> f_id ` set (filter (\<lambda>other. f_id other \<notin> V \<and> nearSeed f other) ms),
      Min (insert a (f_x ` set (filter (\<lambda>other. f_id other \<notin> V \<and> nearSeed f other) ms))),
      Max (insert b (f_x ` set (filter (\<lambda>other. f_id other \<notin> V \<and> nearSeed f other) ms))),
      Min (insert c (f_y ` set (filter (\<lambda>other. f_id other \<notin> V \<and> nearSeed f other) ms))),
      Max (insert d (f_y ` set (filter (\<lambda>other. f_id other \<notin> V \<and> nearSeed f other) ms))))"
  using assms
proof (induction ms arbitrary: g V a b c d)
  case Nil
  then show ?case by simp
next
  case (Cons o1 ms)
  from Cons.prems have dm: "distinct (map f_id ms)" and fresh: "f_id o1 \<notin> f_id ` set ms" by auto
  show ?case
  proof (cases "f_id o1 \<notin> V \<and> nearSeed f o1")
    case False
    then have "fold (groupStep f) (o1 # ms) (g, V, a, b, c, d) = fold (groupStep f) ms (g, V, a, b, c, d)"
      by (auto simp: groupStep_def)
    with Cons.IH[OF dm, of g V a b c d] False show ?thesis by auto
  next
    case True
    let ?sel = "filter (\<lambda>other. f_id other \<notin> V \<and> nearSeed f other) ms"
    have same: "filter (\<lambda>other. f_id other \<notin> insert (f_id o1) V \<and> nearSeed f other) ms = ?sel"
    proof (rule filter_cong[OF refl])
      fix x assume "x \<in> set ms"
      with fresh have "f_id x \<noteq> f_id o1" by (metis image_eqI)
      then show "(f_id x \<notin> insert (f_id o1) V \<and> nearSeed f x) = (f_id x \<notin> V \<and> nearSeed f x)"
        by simp
    qed
    have "fold (groupStep f) (o1 # ms) (g, V, a, b, c, d) =
          fold (groupStep f) ms (g @ [o1], insert (f_id o1) V, min a (f_x o1), max b (f_x o1),
                                  min c (f_y o1), max d (f_y o1))"
      using True by (simp add: groupStep_def)
    also have "\<dots> = ((g @ [o1]) @ ?sel, insert (f_id o1) V \<union> f_id ` set ?sel,
          Min (insert (min a (f_x o1)) (f_x ` set ?sel)), Max (insert (max b (f_x o1)) (f_x ` set ?sel)),
          Min (insert (min c (f_y o1)) (f_y ` set ?sel)), Max (insert (max d (f_y o1)) (f_y ` set ?sel)))"
      unfolding Cons.IH[OF dm] same ..
    also have "Min (insert (min a (f_x o1)) (f_x ` set ?sel)) = Min (insert a (insert (f_x o1) (f_x ` set ?sel)))"
      by (rule Min_insert_min) simp
    also have "Max (insert (max b (f_x o1)) (f_x ` set ?sel)) = Max (insert b (insert (f_x o1) (f_x ` set ?sel)))"
      by (rule Max_insert_max) simp
    also have "Min (insert (min c (f_y o1)) (f_y ` set ?sel)) = Min (insert c (insert (f_y o1) (f_y ` set ?sel)))"
      by (rule Min_insert_min) simp
    also have "Max (insert (max d (f_y o1)) (f_y ` set ?sel)) = Max (insert d (insert (f_y o1) (f_y ` set ?sel)))"
      by (rule Max_insert_max) simp
    finally show ?thesis using True by simp
  qed
qed

lemma seedStep_spec:
  assumes "distinct (map f_id ms)"
  shows "seedStep ms f (bl, V) =
     (if f_id f \<in> V then (bl, V)
      else (if 3 \<le> length (seed_group V ms f) then bl @ [blob_of (seed_group V ms f)] else bl,
            V \<union> f_id ` set (seed_group V ms f)))"
proof (cases "f_id f \<in> V")
  case True
  then show ?thesis by (simp add: seedStep_def)
next
  case False
  define sel where "sel = filter (\<lambda>other. f_id other \<notin> insert (f_id f) V \<and> nearSeed f other) ms"
  have sg: "seed_group V ms f = f # sel" by (simp add: seed_group_def sel_def)
  have fd: "fold (groupStep f) ms ([f], insert (f_id f) V, f_x f, f_x f, f_y f, f_y f) =
     (f # sel, insert (f_id f) V \<union> f_id ` set sel,
      Min (insert (f_x f) (f_x ` set sel)), Max (insert (f_x f) (f_x ` set sel)),
      Min (insert (f_y f) (f_y ` set sel)), Max (insert (f_y f) (f_y ` set sel)))"
    unfolding sel_def fold_groupStep[OF assms] by simp
  have mk: "makeBlob (f # sel) (Min (insert (f_x f) (f_x ` set sel))) (Max (insert (f_x f) (f_x ` set sel)))
              (Min (insert (f_y f) (f_y ` set sel))) (Max (insert (f_y f) (f_y ` set sel))) =
            blob_of (f # sel)"
    by (simp add: makeBlob_def blob_of_def)
  show ?thesis
    using False
    by (simp add: seedStep_def fd sg mk del: Min_insert Max_insert)
qed

lemma fold_seedStep:
  assumes "distinct (map f_id ms)"
  shows "fst (fold (seedStep ms) rest (bl, V)) =
         bl @ map blob_of (filter (\<lambda>g. 3 \<le> length g) (seed_groups V ms rest))"
proof (induction rest arbitrary: bl V)
  case Nil
  then show ?case by simp
next
  case (Cons f rest)
  show ?case
    by (simp add: seedStep_spec[OF assms] Cons.IH)
qed

lemma engine_inv_stripes:
  "engine_inv \<lparr>width = 31, height = 31, prevGray = Some (map stripe_px [0..<961]),
       activeFeatures = [\<lparr>f_x = 15, f_y = 15, f_vx = 0, f_vy = 0, f_score = 510, f_id = 0, f_age = 0\<rparr>],
       nextFeatureId = 1\<rparr>"
  by (simp add: engine_inv_def feats_inv_def feat_ok_def halfP_def patchSize_def maxFeatures_def)

section \<open>Claims about the trajectory tracker and about \<open>reset\<close>\<close>

text \<open>
  Claim C9. On both components \<open>reset\<close> is idempotent, and the state after \<open>reset\<close> is the
  state after construction: no previous frame, no features, no trajectories, and both id
  counters at zero. The engine keeps the frame size it was constructed with.
\<close>

theorem reset_idempotent:
  "reset (reset e) = reset e \<and> reset e = new_CVEngine (width e) (height e) \<and>
   prevGray (reset e) = None \<and> activeFeatures (reset e) = [] \<and> nextFeatureId (reset e) = 0 \<and>
   tracker_reset (tracker_reset tr) = tracker_reset tr \<and> tracker_reset tr = new_BlobTracker \<and>
   trajectories (tracker_reset tr) = [] \<and> nextId (tracker_reset tr) = 0"
  by (cases e, cases tr) (simp add: reset_def new_CVEngine_def tracker_reset_def new_BlobTracker_def)

text \<open>
  Claim C2. Take any state \<open>tr\<close> that a sequence of \<open>update\<close> and \<open>reset\<close> calls reaches
  from a new tracker, and any further call \<open>update tr bs ts params\<close>. The call returns, and
  with \<open>M\<close> the set \<open>matchedIds\<close> at its end: every trajectory of the result whose id is not
  in \<open>M\<close> is inactive; every trajectory that was in the map before the call and is not in
  \<open>M\<close> is kept with nothing changed but \<open>active = false\<close>; and \<open>M\<close> holds exactly the
  trajectories that a blob of this call extended (they were active before the call) or
  created. This holds for every value of \<open>params\<close>: after the blobs are matched,
  \<open>persistence\<close> plays no part in the deactivation.
\<close>

theorem update_deactivates_unmatched:
  "\<exists>tr tr' M. tracker_run new_BlobTracker calls = Inr tr \<and>
      update_matched tr bs ts params = Inr (tr', M) \<and>
      update tr bs ts params = Inr (tr', map snd (trajectories tr')) \<and>
      (\<forall>k t'. (k, t') \<in> set (trajectories tr') \<and> k \<notin> M \<longrightarrow> \<not> active t') \<and>
      (\<forall>k t. (k, t) \<in> set (trajectories tr) \<and> k \<notin> M \<longrightarrow>
         (k, t\<lparr>active := False\<rparr>) \<in> set (trajectories tr')) \<and>
      (\<forall>k\<in>M. (\<exists>t b. (k, t) \<in> set (trajectories tr) \<and> active t \<and> b \<in> set bs \<and>
                     (k, pushPoint (blobPoint b ts) t) \<in> set (trajectories tr')) \<or>
               (nextId tr \<le> k \<and>
                (\<exists>b\<in>set bs. (k, newTrajectory k (blobPoint b ts)) \<in> set (trajectories tr'))))"
proof -
  from tracker_run_inv[OF tracker_inv_new, of calls] obtain tr where
    run: "tracker_run new_BlobTracker calls = Inr tr" and inv: "tracker_inv tr" by blast
  from update_matched_spec[OF inv, of bs ts params] obtain tr' M where
    um: "update_matched tr bs ts params = Inr (tr', M)"
    and le: "nextId tr \<le> nextId tr'"
    and keys: "map fst (trajectories tr') = map fst (trajectories tr) @ [nextId tr..<nextId tr']"
    and old: "\<forall>k t. (k, t) \<in> set (trajectories tr) \<longrightarrow>
        (if k \<in> M
         then active t \<and> (\<exists>b\<in>set bs. (k, pushPoint (blobPoint b ts) t) \<in> set (trajectories tr'))
         else (k, t\<lparr>active := False\<rparr>) \<in> set (trajectories tr'))"
    and new: "\<forall>k. nextId tr \<le> k \<and> k < nextId tr' \<longrightarrow>
        k \<in> M \<and> (\<exists>b\<in>set bs. (k, newTrajectory k (blobPoint b ts)) \<in> set (trajectories tr'))"
    and sub: "M \<subseteq> fst ` set (trajectories tr')"
    and off: "\<forall>k t'. (k, t') \<in> set (trajectories tr') \<and> k \<notin> M \<longrightarrow> \<not> active t'"
    by blast
  have c2: "\<forall>k t. (k, t) \<in> set (trajectories tr) \<and> k \<notin> M \<longrightarrow>
         (k, t\<lparr>active := False\<rparr>) \<in> set (trajectories tr')"
    using old by auto
  have c3: "\<forall>k\<in>M. (\<exists>t b. (k, t) \<in> set (trajectories tr) \<and> active t \<and> b \<in> set bs \<and>
                     (k, pushPoint (blobPoint b ts) t) \<in> set (trajectories tr')) \<or>
               (nextId tr \<le> k \<and>
                (\<exists>b\<in>set bs. (k, newTrajectory k (blobPoint b ts)) \<in> set (trajectories tr')))"
  proof
    fix k assume kM: "k \<in> M"
    with sub have "k \<in> set (map fst (trajectories tr'))" by auto
    then have "k \<in> fst ` set (trajectories tr) \<or> (nextId tr \<le> k \<and> k < nextId tr')"
      unfolding keys by auto
    then show "(\<exists>t b. (k, t) \<in> set (trajectories tr) \<and> active t \<and> b \<in> set bs \<and>
                     (k, pushPoint (blobPoint b ts) t) \<in> set (trajectories tr')) \<or>
               (nextId tr \<le> k \<and>
                (\<exists>b\<in>set bs. (k, newTrajectory k (blobPoint b ts)) \<in> set (trajectories tr')))"
    proof
      assume "k \<in> fst ` set (trajectories tr)"
      then obtain t where "(k, t) \<in> set (trajectories tr)" by auto
      with old kM show ?thesis by fastforce
    next
      assume "nextId tr \<le> k \<and> k < nextId tr'"
      with new show ?thesis by blast
    qed
  qed
  from run um update_of_matched[OF um] off c2 c3 show ?thesis by blast
qed

theorem update_deactivates_unmatched_witness:
  "tracker_run new_BlobTracker [Update [mkBlob 0 0] 0 (appParams 10)] =
     Inr \<lparr>trajectories =
           [(0, \<lparr>t_id = 0, points = [\<lparr>p_x = 0, p_y = 0, p_timestamp = 0\<rparr>], active = True,
                 color = ''#3b82f6''\<rparr>)],
          nextId = 1\<rparr> \<and>
   update \<lparr>trajectories =
           [(0, \<lparr>t_id = 0, points = [\<lparr>p_x = 0, p_y = 0, p_timestamp = 0\<rparr>], active = True,
                 color = ''#3b82f6''\<rparr>)],
          nextId = 1\<rparr> [] 1 (appParams 10) =
     Inr (\<lparr>trajectories =
           [(0, \<lparr>t_id = 0, points = [\<lparr>p_x = 0, p_y = 0, p_timestamp = 0\<rparr>], active = False,
                 color = ''#3b82f6''\<rparr>)],
          nextId = 1\<rparr>,
          [\<lparr>t_id = 0, points = [\<lparr>p_x = 0, p_y = 0, p_timestamp = 0\<rparr>], active = False,
                 color = ''#3b82f6''\<rparr>])"
  using update_deactivates_unmatched[of "[Update [mkBlob 0 0] 0 (appParams 10)]" "[]" 1 "appParams 10"]
  by (simp add: tracker_eval)

text \<open>
  Claim C10. In every reachable state of the tracker, a trajectory that is inactive stays
  in the map, unchanged and inactive, through every further sequence of \<open>update\<close> calls;
  \<open>reset\<close> empties the map.
\<close>

theorem inactive_is_absorbing:
  "\<exists>tr. tracker_run new_BlobTracker calls = Inr tr \<and>
     (\<forall>k t. (k, t) \<in> set (trajectories tr) \<and> \<not> active t \<longrightarrow>
        (\<forall>us. \<exists>tr'. tracker_run tr (map (\<lambda>(bs, ts, params). Update bs ts params) us) = Inr tr' \<and>
                    (k, t) \<in> set (trajectories tr') \<and>
                    (\<forall>t'. (k, t') \<in> set (trajectories tr') \<longrightarrow> \<not> active t'))) \<and>
     trajectories (tracker_reset tr) = []"
proof -
  from tracker_run_inv[OF tracker_inv_new, of calls] obtain tr where
    run: "tracker_run new_BlobTracker calls = Inr tr" and inv: "tracker_inv tr" by blast
  have keep: "\<exists>tr'. tracker_run tr0 (map (\<lambda>(bs, ts, params). Update bs ts params) us) = Inr tr' \<and>
                 tracker_inv tr' \<and> (k, t) \<in> set (trajectories tr')"
    if "tracker_inv tr0" "(k, t) \<in> set (trajectories tr0)" "\<not> active t" for tr0 us k t
    using that
  proof (induction us arbitrary: tr0)
    case Nil
    then show ?case by simp
  next
    case (Cons u us)
    obtain bs ts params where u: "u = (bs, ts, params)" by (cases u)
    from update_matched_spec[OF Cons.prems(1), of bs ts params] obtain tr1 M where
      um: "update_matched tr0 bs ts params = Inr (tr1, M)" and inv1: "tracker_inv tr1"
      and old: "\<forall>k t. (k, t) \<in> set (trajectories tr0) \<longrightarrow>
        (if k \<in> M
         then active t \<and> (\<exists>b\<in>set bs. (k, pushPoint (blobPoint b ts) t) \<in> set (trajectories tr1))
         else (k, t\<lparr>active := False\<rparr>) \<in> set (trajectories tr1))"
      by blast
    from old Cons.prems(2,3) have "(k, t\<lparr>active := False\<rparr>) \<in> set (trajectories tr1)"
      by (metis (full_types))
    then have "(k, t) \<in> set (trajectories tr1)"
      using Cons.prems(3) by (simp add: inactive_update_id)
    from Cons.IH[OF inv1 this Cons.prems(3)] show ?case
      using u update_of_matched[OF um] by simp
  qed
  have "\<forall>k t. (k, t) \<in> set (trajectories tr) \<and> \<not> active t \<longrightarrow>
        (\<forall>us. \<exists>tr'. tracker_run tr (map (\<lambda>(bs, ts, params). Update bs ts params) us) = Inr tr' \<and>
                    (k, t) \<in> set (trajectories tr') \<and>
                    (\<forall>t'. (k, t') \<in> set (trajectories tr') \<longrightarrow> \<not> active t'))"
  proof (intro allI impI)
    fix k t us assume a: "(k, t) \<in> set (trajectories tr) \<and> \<not> active t"
    from keep[of tr k t us] inv a obtain tr' where
      r: "tracker_run tr (map (\<lambda>(bs, ts, params). Update bs ts params) us) = Inr tr'"
      and i: "tracker_inv tr'" and m: "(k, t) \<in> set (trajectories tr')" by blast
    have "\<forall>t'. (k, t') \<in> set (trajectories tr') \<longrightarrow> \<not> active t'"
      using tracker_inv_unique[OF i _ m] a by blast
    with r m show "\<exists>tr'. tracker_run tr (map (\<lambda>(bs, ts, params). Update bs ts params) us) = Inr tr' \<and>
                    (k, t) \<in> set (trajectories tr') \<and>
                    (\<forall>t'. (k, t') \<in> set (trajectories tr') \<longrightarrow> \<not> active t')" by blast
  qed
  with run show ?thesis by (auto simp: tracker_reset_def)
qed

theorem inactive_is_absorbing_witness:
  "\<exists>tr'. tracker_run
           \<lparr>trajectories =
              [(0, \<lparr>t_id = 0, points = [\<lparr>p_x = 0, p_y = 0, p_timestamp = 0\<rparr>], active = False,
                    color = ''#3b82f6''\<rparr>)],
            nextId = 1\<rparr>
           [Update [mkBlob 0 0] 2 (appParams 1)] = Inr tr' \<and>
         (0, \<lparr>t_id = 0, points = [\<lparr>p_x = 0, p_y = 0, p_timestamp = 0\<rparr>], active = False,
              color = ''#3b82f6''\<rparr>) \<in> set (trajectories tr')"
proof -
  let ?T = "\<lparr>t_id = 0, points = [\<lparr>p_x = 0, p_y = 0, p_timestamp = 0\<rparr>], active = False,
              color = ''#3b82f6''\<rparr>"
  let ?calls = "[Update [mkBlob 0 0] 0 (appParams 1), Update [] 1 (appParams 1)]"
  from inactive_is_absorbing[of ?calls] obtain tr where
    run: "tracker_run new_BlobTracker ?calls = Inr tr"
    and ab: "\<forall>k t. (k, t) \<in> set (trajectories tr) \<and> \<not> active t \<longrightarrow>
        (\<forall>us. \<exists>tr'. tracker_run tr (map (\<lambda>(bs, ts, params). Update bs ts params) us) = Inr tr' \<and>
                    (k, t) \<in> set (trajectories tr') \<and>
                    (\<forall>t'. (k, t') \<in> set (trajectories tr') \<longrightarrow> \<not> active t'))"
    by blast
  from run have tr: "tr = \<lparr>trajectories = [(0, ?T)], nextId = 1\<rparr>"
    by (simp add: tracker_eval)
  then have "(0, ?T) \<in> set (trajectories tr) \<and> \<not> active ?T" by simp
  with ab obtain tr' where
    "tracker_run tr (map (\<lambda>(bs, ts, params). Update bs ts params) [([mkBlob 0 0], 2, appParams 1)]) = Inr tr'"
    "(0, ?T) \<in> set (trajectories tr')" by blast
  then show ?thesis using tr by auto
qed






section \<open>Claims about the feature engine\<close>

text \<open>
  Claim C1. Let \<open>e\<close> be an engine state that satisfies the invariant \<open>engine_inv\<close> (every
  state reached from a new engine does, \<open>engine_run_inv\<close>) and holds a previous frame
  \<open>prev\<close>, and let \<open>gray\<close> be the grayscale of the new frame. For every active feature
  \<open>f\<close>: the candidates are the 225 offsets of the 15x15 window in raster order; a candidate
  whose 7x7 patch would leave the frame has no score, every other candidate has the SAD of
  its patch in \<open>gray\<close> against the patch of \<open>f\<close> in \<open>prev\<close>; \<open>findMatch\<close> returns a position
  exactly when that position is the first candidate of minimal SAD and the SAD is below 5000;
  the feature is then moved there, with velocity new minus old position and age plus one;
  otherwise it is dropped, and its id does not occur among the features after the call.
  The features after the call are the tracked ones, in order, followed by newly detected
  ones.
\<close>

theorem track_by_first_minimum_SAD:
  assumes inv: "engine_inv e" and pg: "prevGray e = Some prev"
    and w: "w = width e" and h: "h = height e"
    and gray: "gray = toGrayscale luma w h frameData"
    and e': "e' = fst (process luma e frameData thr)"
  shows "(\<forall>f\<in>set (activeFeatures e).
           raster f = concat (map (\<lambda>dy. map (\<lambda>dx. (f_x f + dx, f_y f + dy)) [- 7..7]) [- 7..7]) \<and>
           (\<forall>c. candSAD w h prev gray f c =
                  (if outOfFrame w h (fst c) (snd c) then None
                   else Some (sad_spec w prev gray (f_x f) (f_y f) (fst c) (snd c)))) \<and>
           (\<forall>c. findMatch w h f prev gray = Some c \<longleftrightarrow>
                  (\<exists>i s. is_first_min (candSAD w h prev gray f) (raster f) i s \<and>
                         raster f ! i = c \<and> s < 5000)) \<and>
           (\<forall>c. findMatch w h f prev gray = Some c \<longrightarrow>
                  trackOne w h prev gray f =
                    Some (f\<lparr>f_x := fst c, f_y := snd c, f_vx := fst c - f_x f,
                            f_vy := snd c - f_y f, f_age := f_age f + 1\<rparr>)) \<and>
           (findMatch w h f prev gray = None \<longrightarrow>
              trackOne w h prev gray f = None \<and> f_id f \<notin> f_id ` set (activeFeatures e'))) \<and>
         (\<exists>new. activeFeatures e' = List.map_filter (trackOne w h prev gray) (activeFeatures e) @ new \<and>
                list_all (fresh_feature (nextFeatureId e) (nextFeatureId e')) new) \<and>
         features (snd (process luma e frameData thr)) = activeFeatures e'"
proof -
  from inv have fi: "feats_inv w h (nextFeatureId e) (activeFeatures e)"
    and lp: "length prev = w * h"
    by (simp_all add: engine_inv_def pg w h)
  have lg: "length gray = w * h" by (simp add: gray length_toGrayscale)
  from process_spec[OF inv, of luma frameData thr] obtain new where
    new: "activeFeatures e' = List.map_filter (trackOne w h prev gray) (activeFeatures e) @ new"
      "list_all (fresh_feature (nextFeatureId e) (nextFeatureId e')) new"
    by (auto simp: pg w h gray e')
  have per: "raster f = concat (map (\<lambda>dy. map (\<lambda>dx. (f_x f + dx, f_y f + dy)) [- 7..7]) [- 7..7]) \<and>
           (\<forall>c. candSAD w h prev gray f c =
                  (if outOfFrame w h (fst c) (snd c) then None
                   else Some (sad_spec w prev gray (f_x f) (f_y f) (fst c) (snd c)))) \<and>
           (\<forall>c. findMatch w h f prev gray = Some c \<longleftrightarrow>
                  (\<exists>i s. is_first_min (candSAD w h prev gray f) (raster f) i s \<and>
                         raster f ! i = c \<and> s < 5000)) \<and>
           (\<forall>c. findMatch w h f prev gray = Some c \<longrightarrow>
                  trackOne w h prev gray f =
                    Some (f\<lparr>f_x := fst c, f_y := snd c, f_vx := fst c - f_x f,
                            f_vy := snd c - f_y f, f_age := f_age f + 1\<rparr>)) \<and>
           (findMatch w h f prev gray = None \<longrightarrow>
              trackOne w h prev gray f = None \<and> f_id f \<notin> f_id ` set (activeFeatures e'))"
    if f: "f \<in> set (activeFeatures e)" for f
  proof -
    from fi f have ok: "feat_ok w h (nextFeatureId e) f" by (simp add: feats_inv_def list_all_iff)
    have r: "raster f = concat (map (\<lambda>dy. map (\<lambda>dx. (f_x f + dx, f_y f + dy)) [- 7..7]) [- 7..7])"
      by (simp add: raster_def halfS_def searchWindow_def del: upto_rec_numeral)
    have c: "\<forall>c. candSAD w h prev gray f c =
                  (if outOfFrame w h (fst c) (snd c) then None
                   else Some (sad_spec w prev gray (f_x f) (f_y f) (fst c) (snd c)))"
      using candSAD_in_frame[OF lp lg feat_ok_in_frame[OF ok]] by blast
    have m: "\<forall>c. findMatch w h f prev gray = Some c \<longleftrightarrow>
                  (\<exists>i s. is_first_min (candSAD w h prev gray f) (raster f) i s \<and>
                         raster f ! i = c \<and> s < 5000)"
      using findMatch_Some_iff[of w h f prev gray] by (simp add: acceptSAD_def)
    have t: "\<forall>c. findMatch w h f prev gray = Some c \<longrightarrow>
                  trackOne w h prev gray f =
                    Some (f\<lparr>f_x := fst c, f_y := snd c, f_vx := fst c - f_x f,
                            f_vy := snd c - f_y f, f_age := f_age f + 1\<rparr>)"
      by (simp add: trackOne_def split_def)
    have tn: "findMatch w h f prev gray = None \<Longrightarrow> trackOne w h prev gray f = None"
      by (simp add: trackOne_def)
    have d: "f_id f \<notin> f_id ` set (activeFeatures e')" if none: "findMatch w h f prev gray = None"
    proof
      assume "f_id f \<in> f_id ` set (activeFeatures e')"
      then consider "f_id f \<in> set (map f_id (List.map_filter (trackOne w h prev gray) (activeFeatures e)))"
        | "f_id f \<in> f_id ` set new" unfolding new(1) by auto
      then show False
      proof cases
        case 1
        then obtain f2 where f2: "f2 \<in> set (activeFeatures e)" "trackOne w h prev gray f2 \<noteq> None"
          "f_id f2 = f_id f" unfolding map_id_tracked by auto
        from fi have "distinct (map f_id (activeFeatures e))" by (simp add: feats_inv_def)
        with f f2(1,3) have "f2 = f" by (meson distinct_map inj_onD)
        with f2(2) none show False by (simp add: trackOne_def)
      next
        case 2
        then obtain f2 where "f2 \<in> set new" "f_id f2 = f_id f" by auto
        with new(2) have "nextFeatureId e \<le> f_id f" by (auto simp: list_all_iff fresh_feature_def)
        with ok show False by (simp add: feat_ok_def)
      qed
    qed
    from r c m t tn d show ?thesis by blast
  qed
  from per new process_features[of luma e frameData thr] e' show ?thesis by blast
qed

theorem track_by_first_minimum_SAD_witness:
  "\<exists>new. activeFeatures (fst (process luma_round
       \<lparr>width = 31, height = 31, prevGray = Some (map stripe_px [0..<961]),
         activeFeatures = [\<lparr>f_x = 15, f_y = 15, f_vx = 0, f_vy = 0, f_score = 510, f_id = 0, f_age = 0\<rparr>],
         nextFeatureId = 1\<rparr> stripes 30)) =
     [\<lparr>f_x = 8, f_y = 8, f_vx = - 7, f_vy = - 7, f_score = 510, f_id = 0, f_age = 1\<rparr>] @ new"
proof -
  let ?f = "\<lparr>f_x = 15, f_y = 15, f_vx = 0, f_vy = 0, f_score = 510, f_id = 0, f_age = 0\<rparr>"
  let ?g = "map stripe_px [0..<961]"
  let ?e = "\<lparr>width = 31, height = 31, prevGray = Some ?g, activeFeatures = [?f],
             nextFeatureId = 1\<rparr>"
  have pg: "prevGray ?e = Some ?g" by simp
  have w: "31 = width ?e" and h: "31 = height ?e" by simp_all
  have gr: "?g = toGrayscale luma_round 31 31 stripes" by (simp add: toGrayscale_stripes)
  from track_by_first_minimum_SAD[OF engine_inv_stripes pg w h gr refl, of 30]
  obtain new where
    "activeFeatures (fst (process luma_round ?e stripes 30)) =
       List.map_filter (trackOne 31 31 ?g ?g) (activeFeatures ?e) @ new" by blast
  moreover have "trackOne 31 31 ?g ?g ?f =
       Some \<lparr>f_x = 8, f_y = 8, f_vx = - 7, f_vy = - 7, f_score = 510, f_id = 0, f_age = 1\<rparr>"
    by (simp add: trackOne_def findMatch_stripes)
  ultimately show ?thesis by (simp add: List.map_filter_simps)
qed

text \<open>
  Claim C3. After every sequence of \<open>process\<close> and \<open>reset\<close> calls on a new engine there are
  at most 200 active features, in the state and in the result of the next \<open>process\<close> call.
  \<open>detectNewFeatures\<close> creates nothing when there are 200 features or more, and never takes
  a list of at most 200 features beyond 200.
\<close>

theorem active_features_at_most_200:
  "length (activeFeatures (engine_run luma (new_CVEngine w h) calls)) \<le> 200 \<and>
   length (features (snd (process luma (engine_run luma (new_CVEngine w h) calls) frameData thr))) \<le> 200 \<and>
   (\<forall>e gray t. 200 \<le> length (activeFeatures e) \<longrightarrow> detectNewFeatures gray t e = e) \<and>
   (\<forall>e gray t. length (activeFeatures e) \<le> 200 \<longrightarrow>
      length (activeFeatures (detectNewFeatures gray t e)) \<le> 200)"
proof -
  let ?e = "engine_run luma (new_CVEngine w h) calls"
  have inv: "engine_inv ?e" by (rule engine_run_inv[OF engine_inv_new])
  then have "length (activeFeatures ?e) \<le> 200"
    by (simp add: engine_inv_def feats_inv_def maxFeatures_def)
  moreover have "length (features (snd (process luma ?e frameData thr))) \<le> 200"
    using process_spec[OF inv, of luma frameData thr]
    by (simp add: process_features engine_inv_def feats_inv_def maxFeatures_def)
  moreover have "\<forall>e gray t. 200 \<le> length (activeFeatures e) \<longrightarrow> detectNewFeatures gray t e = e"
    using detectNewFeatures_full by (simp add: maxFeatures_def)
  moreover have "\<forall>e gray t. length (activeFeatures e) \<le> 200 \<longrightarrow>
      length (activeFeatures (detectNewFeatures gray t e)) \<le> 200"
    using detectNewFeatures_length by (simp add: maxFeatures_def)
  ultimately show ?thesis by blast
qed

theorem active_features_at_most_200_witness:
  "length (activeFeatures (engine_run luma_round (new_CVEngine 31 31) [Process stripes 30])) \<le> 200 \<and>
   detectNewFeatures [] 30
     \<lparr>width = 31, height = 31, prevGray = None,
       activeFeatures = replicate 200 \<lparr>f_x = 15, f_y = 15, f_vx = 0, f_vy = 0, f_score = 510, f_id = 0, f_age = 0\<rparr>,
       nextFeatureId = 1\<rparr> =
     \<lparr>width = 31, height = 31, prevGray = None,
       activeFeatures = replicate 200 \<lparr>f_x = 15, f_y = 15, f_vx = 0, f_vy = 0, f_score = 510, f_id = 0, f_age = 0\<rparr>,
       nextFeatureId = 1\<rparr>"
proof -
  let ?e = "\<lparr>width = 31, height = 31, prevGray = None,
       activeFeatures = replicate 200 \<lparr>f_x = 15, f_y = 15, f_vx = 0, f_vy = 0, f_score = 510, f_id = 0, f_age = 0\<rparr>,
       nextFeatureId = 1\<rparr>"
  from active_features_at_most_200[of luma_round 31 31 "[Process stripes 30]" "[]" 30]
  have a: "length (activeFeatures (engine_run luma_round (new_CVEngine 31 31) [Process stripes 30])) \<le> 200"
    and b: "\<forall>e gray t. 200 \<le> length (activeFeatures e) \<longrightarrow> detectNewFeatures gray t e = e"
    by blast+
  have "200 \<le> length (activeFeatures ?e)" by simp
  with b have "detectNewFeatures [] 30 ?e = ?e" by blast
  with a show ?thesis by blast
qed

text \<open>
  Claim C4, amended. Let the engine satisfy \<open>engine_inv\<close> and hold, as previous frame, the
  grayscale \<open>g\<close> of the very frame data it is given again; that is its state after a call
  with this frame data (\<open>process_spec\<close>). Then every active feature survives tracking: it
  moves to the
  first candidate position, in raster order, whose patch has SAD 0 against the feature's own
  patch, which is the feature's own position (index 112 of the raster) or an earlier
  candidate; the new position is the old one, that is the velocity is \<open>(0, 0)\<close>, exactly when
  no earlier candidate has SAD 0.
\<close>

theorem identical_frames_first_zero_SAD:
  assumes inv: "engine_inv e" and w: "w = width e" and h: "h = height e"
    and g: "g = toGrayscale luma w h frameData" and pg: "prevGray e = Some g"
    and e': "e' = fst (process luma e frameData thr)"
  shows "(\<forall>f\<in>set (activeFeatures e).
           \<exists>i. i \<le> 112 \<and> raster f ! 112 = (f_x f, f_y f) \<and>
               is_first_min (candSAD w h g g f) (raster f) i 0 \<and>
               findMatch w h f g g = Some (raster f ! i) \<and>
               (raster f ! i = (f_x f, f_y f) \<longleftrightarrow>
                  (\<forall>j<112. candSAD w h g g f (raster f ! j) \<noteq> Some 0)) \<and>
               f\<lparr>f_x := fst (raster f ! i), f_y := snd (raster f ! i),
                  f_vx := fst (raster f ! i) - f_x f, f_vy := snd (raster f ! i) - f_y f,
                  f_age := f_age f + 1\<rparr> \<in> set (activeFeatures e')) \<and>
         (\<exists>new. activeFeatures e' = List.map_filter (trackOne w h g g) (activeFeatures e) @ new \<and>
                list_all (fresh_feature (nextFeatureId e) (nextFeatureId e')) new)"
proof -
  from inv have fi: "feats_inv w h (nextFeatureId e) (activeFeatures e)"
    by (simp add: engine_inv_def w h)
  have lg: "length g = w * h" by (simp add: g length_toGrayscale)
  have g': "toGrayscale luma (width e) (height e) frameData = g" by (simp add: g w h)
  from process_spec[OF inv, of luma frameData thr] obtain new where
    new: "activeFeatures e' = List.map_filter (trackOne w h g g) (activeFeatures e) @ new"
      "list_all (fresh_feature (nextFeatureId e) (nextFeatureId e')) new"
    by (auto simp: pg g' w h e')
  have "\<exists>i. i \<le> 112 \<and> raster f ! 112 = (f_x f, f_y f) \<and>
               is_first_min (candSAD w h g g f) (raster f) i 0 \<and>
               findMatch w h f g g = Some (raster f ! i) \<and>
               (raster f ! i = (f_x f, f_y f) \<longleftrightarrow>
                  (\<forall>j<112. candSAD w h g g f (raster f ! j) \<noteq> Some 0)) \<and>
               f\<lparr>f_x := fst (raster f ! i), f_y := snd (raster f ! i),
                  f_vx := fst (raster f ! i) - f_x f, f_vy := snd (raster f ! i) - f_y f,
                  f_age := f_age f + 1\<rparr> \<in> set (activeFeatures e')"
    if f: "f \<in> set (activeFeatures e)" for f
  proof -
    from fi f have ok: "feat_ok w h (nextFeatureId e) f" by (simp add: feats_inv_def list_all_iff)
    from identical_first_zero[OF lg feat_ok_in_frame[OF ok]] obtain i where
      i: "i \<le> 112" "is_first_min (candSAD w h g g f) (raster f) i 0"
         "findMatch w h f g g = Some (raster f ! i)"
         "raster f ! i = (f_x f, f_y f) \<longleftrightarrow> (\<forall>j<112. candSAD w h g g f (raster f ! j) \<noteq> Some 0)"
      by blast
    have "trackOne w h g g f =
          Some (f\<lparr>f_x := fst (raster f ! i), f_y := snd (raster f ! i),
                  f_vx := fst (raster f ! i) - f_x f, f_vy := snd (raster f ! i) - f_y f,
                  f_age := f_age f + 1\<rparr>)"
      using i(3) by (simp add: trackOne_def split_def)
    with f have "f\<lparr>f_x := fst (raster f ! i), f_y := snd (raster f ! i),
                  f_vx := fst (raster f ! i) - f_x f, f_vy := snd (raster f ! i) - f_y f,
                  f_age := f_age f + 1\<rparr> \<in> set (activeFeatures e')"
      unfolding new(1) by (auto simp: set_map_filter)
    with i raster_centre[of f] show ?thesis by blast
  qed
  with new show ?thesis by blast
qed

theorem identical_frames_first_zero_SAD_witness:
  "\<exists>i\<le>112. findMatch 31 31
       \<lparr>f_x = 15, f_y = 15, f_vx = 0, f_vy = 0, f_score = 510, f_id = 0, f_age = 0\<rparr>
       (map stripe_px [0..<961]) (map stripe_px [0..<961]) =
     Some (raster \<lparr>f_x = 15, f_y = 15, f_vx = 0, f_vy = 0, f_score = 510, f_id = 0, f_age = 0\<rparr> ! i)"
proof -
  let ?f = "\<lparr>f_x = 15, f_y = 15, f_vx = 0, f_vy = 0, f_score = 510, f_id = 0, f_age = 0\<rparr>"
  let ?g = "map stripe_px [0..<961]"
  let ?e = "\<lparr>width = 31, height = 31, prevGray = Some ?g, activeFeatures = [?f],
             nextFeatureId = 1\<rparr>"
  have pg: "prevGray ?e = Some ?g" by simp
  have w: "31 = width ?e" and h: "31 = height ?e" by simp_all
  have gr: "?g = toGrayscale luma_round 31 31 stripes" by (simp add: toGrayscale_stripes)
  have f: "?f \<in> set (activeFeatures ?e)" by simp
  from identical_frames_first_zero_SAD[OF engine_inv_stripes w h gr pg refl, of 30] f
  obtain i where "i \<le> 112" "findMatch 31 31 ?f ?g ?g = Some (raster ?f ! i)" by blast
  then show ?thesis by blast
qed

text \<open>
  The claim as it is written fails. On a new 31x31 engine, the frame \<open>stripes\<close> (vertical
  stripes of period 7) with threshold 30 gives one feature at \<open>(15, 15)\<close>. Given the same
  frame again, the first candidate \<open>(8, 8)\<close> of the raster has the same patch as the feature,
  so the feature survives with velocity \<open>(-7, -7)\<close>.
\<close>

theorem identical_frames_velocity_counterexample:
  "features (snd (process luma_round (fst (process luma_round (new_CVEngine 31 31) stripes 30))
                    stripes 30)) =
     [\<lparr>f_x = 8, f_y = 8, f_vx = - 7, f_vy = - 7, f_score = 510, f_id = 0, f_age = 1\<rparr>]"
  unfolding process_features process_stripes_first fst_conv process_stripes_second
  by simp

text \<open>
  Claim C6. For features with distinct ids (as the engine's are), \<open>clusterFeatures\<close> returns
  what the specification describes (\<open>cluster_spec\<close>): one blob for each seed group of at
  least 3 members and none for a smaller group, where a group is the seed with the unvisited
  moving features near it; the box of a blob is the minimum and maximum of the members'
  coordinates padded by 10 on each side, its area the product of the unpadded extents, its
  point count the size of the group. A feature moves when \<open>|vx| + |vy| > 0.2\<close>; it is near
  the seed when its Euclidean distance to the seed is below 60 and the Euclidean distance of
  the velocities is below 2.
\<close>

theorem cluster_emits_groups_of_three:
  assumes "distinct (map f_id fs)"
  shows "clusterFeatures fs = cluster_spec fs \<and>
         (\<forall>f. isMoving f \<longleftrightarrow> real_of_int (\<bar>f_vx f\<bar> + \<bar>f_vy f\<bar>) > 0.2) \<and>
         (\<forall>f other. nearSeed f other \<longleftrightarrow>
            (f_x f - f_x other)\<^sup>2 + (f_y f - f_y other)\<^sup>2 < 60\<^sup>2 \<and>
            (f_vx f - f_vx other)\<^sup>2 + (f_vy f - f_vy other)\<^sup>2 < 2\<^sup>2)"
proof -
  have "distinct (map f_id (filter isMoving fs))" using assms by (rule distinct_map_filter)
  from fold_seedStep[OF this, of "filter isMoving fs" "[]" "{}"]
  have "clusterFeatures fs = cluster_spec fs"
    by (simp add: clusterFeatures_def cluster_spec_def Let_def)
  then show ?thesis by (simp add: isMoving_def nearSeed_iff)
qed

theorem cluster_emits_groups_of_three_witness:
  "clusterFeatures
     [\<lparr>f_x = 10, f_y = 10, f_vx = 1, f_vy = 0, f_score = 100, f_id = 0, f_age = 1\<rparr>,
      \<lparr>f_x = 20, f_y = 10, f_vx = 1, f_vy = 0, f_score = 100, f_id = 1, f_age = 1\<rparr>,
      \<lparr>f_x = 10, f_y = 30, f_vx = 1, f_vy = 1, f_score = 100, f_id = 2, f_age = 1\<rparr>,
      \<lparr>f_x = 200, f_y = 200, f_vx = 1, f_vy = 0, f_score = 100, f_id = 3, f_age = 1\<rparr>,
      \<lparr>f_x = 12, f_y = 12, f_vx = 0, f_vy = 0, f_score = 100, f_id = 4, f_age = 1\<rparr>] =
     [\<lparr>b_x = 0, b_y = 0, b_w = 30, b_h = 40, b_area = 200, b_pointCount = 3\<rparr>]"
proof -
  let ?fs = "[\<lparr>f_x = 10, f_y = 10, f_vx = 1, f_vy = 0, f_score = 100, f_id = 0, f_age = 1\<rparr>,
      \<lparr>f_x = 20, f_y = 10, f_vx = 1, f_vy = 0, f_score = 100, f_id = 1, f_age = 1\<rparr>,
      \<lparr>f_x = 10, f_y = 30, f_vx = 1, f_vy = 1, f_score = 100, f_id = 2, f_age = 1\<rparr>,
      \<lparr>f_x = 200, f_y = 200, f_vx = 1, f_vy = 0, f_score = 100, f_id = 3, f_age = 1\<rparr>,
      \<lparr>f_x = 12, f_y = 12, f_vx = 0, f_vy = 0, f_score = 100, f_id = 4, f_age = 1\<rparr>]"
  have d: "distinct (map f_id ?fs)" by simp
  from cluster_emits_groups_of_three[OF d] have "clusterFeatures ?fs = cluster_spec ?fs" by blast
  also have "\<dots> = [\<lparr>b_x = 0, b_y = 0, b_w = 30, b_h = 40, b_area = 200, b_pointCount = 3\<rparr>]"
    by (simp add: cluster_spec_def isMoving_iff seed_group_def nearSeed_iff blob_of_def)
  finally show ?thesis .
qed

text \<open>
  Claim C8, amended. \<open>process\<close> has no check of the buffer size. For a buffer of any length
  the grayscale frame has \<open>width * height\<close> pixels: a pixel whose three colour bytes lie in
  the buffer gets its luma, every other pixel is 0; bytes beyond \<open>width * height * 4\<close> are
  ignored; and the call stores that frame as the previous frame and returns as it does for
  the buffer cut to size.
\<close>

theorem missized_buffer_accepted:
  "length (toGrayscale luma w h frameData) = w * h \<and>
   (\<forall>i<w * h. toGrayscale luma w h frameData ! i =
       (if i * 4 + 2 < length frameData
        then luma (frameData ! (i * 4)) (frameData ! (i * 4 + 1)) (frameData ! (i * 4 + 2))
        else 0)) \<and>
   toGrayscale luma w h (take (w * h * 4) frameData) = toGrayscale luma w h frameData \<and>
   prevGray (fst (process luma e frameData thr)) =
     Some (toGrayscale luma (width e) (height e) frameData) \<and>
   process luma e (take (width e * height e * 4) frameData) thr = process luma e frameData thr"
proof -
  have t: "toGrayscale luma w h (take (w * h * 4) frameData) = toGrayscale luma w h frameData" for w h
    unfolding toGrayscale_def
    by (rule map_cong[OF refl]) auto
  have "\<forall>i<w * h. toGrayscale luma w h frameData ! i =
       (if i * 4 + 2 < length frameData
        then luma (frameData ! (i * 4)) (frameData ! (i * 4 + 1)) (frameData ! (i * 4 + 2))
        else 0)"
    by (simp add: toGrayscale_def del: upt_Suc)
  moreover have "prevGray (fst (process luma e frameData thr)) =
     Some (toGrayscale luma (width e) (height e) frameData)"
    by (cases "prevGray e")
       (simp_all add: process_def Let_def detectNewFeatures_def split: prod.splits)
  moreover have "process luma e (take (width e * height e * 4) frameData) thr = process luma e frameData thr"
    by (simp add: process_def t)
  ultimately show ?thesis by (simp add: length_toGrayscale t)
qed

theorem missized_buffer_accepted_witness:
  "toGrayscale luma_round 2 2 (replicate 13 255) ! 3 = 0 \<and>
   toGrayscale luma_round 2 2 (replicate 13 255) ! 2 = 255"
proof -
  from missized_buffer_accepted[of luma_round 2 2 "replicate 13 255"]
  have a: "\<forall>i<2 * 2. toGrayscale luma_round 2 2 (replicate 13 255) ! i =
       (if i * 4 + 2 < length (replicate 13 (255::nat))
        then luma_round (replicate 13 255 ! (i * 4)) (replicate 13 255 ! (i * 4 + 1))
               (replicate 13 255 ! (i * 4 + 2))
        else 0)" by blast
  from a[rule_format, of 3] a[rule_format, of 2] show ?thesis
    by (simp add: luma_round_def)
qed

text \<open>
  The claim as it is written fails. A 2x2 engine needs 16 bytes. Given 13 bytes, the call is
  not rejected: the last pixel, two of whose colour bytes are missing, becomes 0, the frame
  is stored and an ordinary result is returned.
\<close>

theorem missized_buffer_counterexample:
  "length (replicate 13 (255::nat)) \<noteq> 2 * 2 * 4 \<and>
   process luma_round (new_CVEngine 2 2) (replicate 13 255) 30 =
     (\<lparr>width = 2, height = 2, prevGray = Some [255, 255, 255, 0], activeFeatures = [],
       nextFeatureId = 0\<rparr>,
      \<lparr>blobs = [], features = []\<rparr>)"
  by (simp add: process_def new_CVEngine_def toGrayscale_def luma_round_def detectNewFeatures_def
        detectRows.simps stride_def upt_rec Let_def)

end
